theory Spec2Isabelle
  imports Complex_Main "HOL-Library.Log_Nat"
begin

section \<open>The live voice session hook (src/hooks/useLiveGemini.ts)\<close>

text \<open>
  The hook keeps its state in React state cells and refs and reacts to events: the user's
  connect and disconnect, the transport's callbacks (onopen, onmessage, onclose, onerror and
  the settling of the connection promise), the capture node's onaudioprocess, the playback
  nodes' onended, and the timers it sets itself. Everything runs on one event loop.

  The model is one record holding the hook's cells and refs under their source names,
  followed by the part of the browser and SDK that the hook drives: the calls it has made
  (start, stop, disconnect, close, send, console output), the wrapper promise with the
  callbacks queued on it, and the pending timers. Every handler is a function from the record
  to the record; what the platform answers inside a handler (the device clock, the result of
  decoding, the result of asking for the microphone) is an argument of the handler.

  Conventions of the model:
  \<^item> JavaScript numbers that measure time on the audio clock (seconds) are IEEE doubles:
    rationals that a double can hold, added with the rounding of double addition (to the
    nearest, ties to even, 53 significant bits). Subnormal numbers and the overflow to
    infinity are outside the model. The timer clock is in whole milliseconds.
  \<^item> A handler runs to completion: the results it awaits are supplied with the event, and
    no other handler runs between its \<open>await\<close> and its continuation.
  \<^item> A React state setter takes effect at once. The guard of \<open>connect\<close> does not read the
    state cells: it tests the values of \<open>isConnected\<close> and \<open>isConnecting\<close> that its
    callback captured in the render that built it (dependency list, line 285). Those two
    values are arguments of \<open>connect\<close>.
  \<^item> Objects created by the hook (audio contexts, nodes, streams, promises) are numbered from
    a counter, \<open>nextId\<close>. The wiring of the audio graph (\<open>connect\<close> between nodes) has no
    influence on the hook's state and is left out.
  \<^item> The capture callback is delivered only for the processor held in
    \<open>scriptProcessorRef\<close>: the processor of a session that was torn down has been
    disconnected and sits on a closed audio context.
\<close>

subsection \<open>Data\<close>

text \<open>A started AudioBufferSourceNode: \<open>source.start(seg_start)\<close> with a buffer of \<open>seg_duration\<close>.\<close>

record segment =
  seg_id :: nat
  seg_start :: rat
  seg_duration :: rat

text \<open>What \<open>cleanup\<close> releases: a node it disconnects, a stream whose tracks it stops, a context it closes.\<close>

datatype resource = Processor nat | InputSource nat | Stream nat | Context nat

text \<open>The two callbacks the hook queues on the wrapper promise \<open>sessionPromiseRef\<close>.\<close>

datatype reaction = SendInput nat | CloseSession

record hook =
  isConnected :: bool
  isConnecting :: bool
  isSpeaking :: bool
  error :: "string option"
  inputAudioContextRef :: "nat option"
  outputAudioContextRef :: "nat option"
  scriptProcessorRef :: "nat option"
  inputSourceRef :: "nat option"
  streamRef :: "nat option"
  inputAnalyser :: "nat option"
  outputAnalyser :: "nat option"
  nextStartTimeRef :: rat
  activeSourcesRef :: "nat list"
  sessionResolveRef :: "nat option"
  sessionPromiseRef :: "nat option"
  nextId :: nat
  started :: "segment list"
  stopCalls :: "nat list"
  released :: "resource list"
  resolved :: "(nat \<times> nat) list"
  pending :: "(nat \<times> reaction) list"
  sentFrames :: "(nat \<times> nat) list"
  closedSessions :: "nat list"
  timers :: "nat list"
  console :: "string list"
  liveConnects :: nat

text \<open>
  \<open>activeSourcesRef\<close> is a JavaScript \<open>Set\<close>: a list without duplicates in insertion order.
  \<open>resolved\<close> maps a settled wrapper promise to the session it was resolved with;
  \<open>pending\<close> holds the callbacks queued on wrapper promises that are not settled yet, in
  the order of their \<open>then\<close>. \<open>sentFrames\<close> are the \<open>sendRealtimeInput\<close> calls (session,
  frame), \<open>closedSessions\<close> the \<open>close\<close> calls, \<open>timers\<close> the due times of the pending
  \<open>setTimeout\<close> callbacks, \<open>liveConnects\<close> the number of calls of \<open>ai.live.connect\<close>.
\<close>

subsection \<open>JavaScript numbers\<close>

text \<open>
  A double is a rational \<open>n * 2 ^ (e - 52)\<close> with \<open>2 ^ 52 \<le> n < 2 ^ 53\<close>, its negation,
  or zero. \<open>expo q\<close> is the binary exponent of a positive \<open>q\<close> (\<open>2 ^ expo q \<le> q < 2 ^ (expo q + 1)\<close>),
  \<open>ulp q\<close> the distance between the doubles around it. \<open>double_round\<close> takes a rational to
  the nearest double, a tie to the one with the even significand; \<open>number_add\<close> is the
  \<open>+\<close> of two numbers.
\<close>

definition expo :: "rat \<Rightarrow> int" where
  "expo q = (if 1 \<le> q then bitlen \<lfloor>q\<rfloor> - 1 else - bitlen (\<lceil>1 / q\<rceil> - 1))"

definition ulp :: "rat \<Rightarrow> rat" where
  "ulp q = 2 powi (expo q - 52)"

definition round_even :: "rat \<Rightarrow> int" where
  "round_even y =
     (let f = \<lfloor>y\<rfloor>; r = y - of_int f
      in if r < 1/2 then f else if 1/2 < r then f + 1 else if even f then f else f + 1)"

definition round_pos :: "rat \<Rightarrow> rat" where
  "round_pos q = of_int (round_even (q / ulp q)) * ulp q"

definition double_round :: "rat \<Rightarrow> rat" where
  "double_round q =
     (if q = 0 then 0 else if 0 < q then round_pos q else - round_pos (- q))"

definition number_add :: "rat \<Rightarrow> rat \<Rightarrow> rat" where
  "number_add x y = double_round (x + y)"

definition is_double :: "rat \<Rightarrow> bool" where
  "is_double x \<longleftrightarrow> double_round x = x"


subsection \<open>The initial state and small helpers\<close>

definition init :: hook where
  "init = \<lparr> isConnected = False, isConnecting = False, isSpeaking = False, error = None,
     inputAudioContextRef = None, outputAudioContextRef = None, scriptProcessorRef = None,
     inputSourceRef = None, streamRef = None, inputAnalyser = None, outputAnalyser = None,
     nextStartTimeRef = 0, activeSourcesRef = [], sessionResolveRef = None,
     sessionPromiseRef = None, nextId = 0, started = [], stopCalls = [], released = [],
     resolved = [], pending = [], sentFrames = [], closedSessions = [], timers = [],
     console = [], liveConnects = 0 \<rparr>"

definition set_add :: "nat \<Rightarrow> nat list \<Rightarrow> nat list" where
  "set_add x xs = (if x \<in> set xs then xs else xs @ [x])"

definition set_delete :: "nat \<Rightarrow> nat list \<Rightarrow> nat list" where
  "set_delete x xs = removeAll x xs"

definition log_line :: "string \<Rightarrow> hook \<Rightarrow> hook" where
  "log_line l s = s\<lparr>console := console s @ [l]\<rparr>"

text \<open>\<open>err.message || d\<close>: the message unless it is missing or empty.\<close>

definition or_default :: "string option \<Rightarrow> string \<Rightarrow> string" where
  "or_default m d = (case m of None \<Rightarrow> d | Some t \<Rightarrow> if t = [] then d else t)"

subsection \<open>cleanup (lines 47-96)\<close>

text \<open>
  Each \<open>source.stop()\<close> sits in its own try/catch that ignores the exception, and each
  \<open>close()\<close> has its rejection swallowed, so the routine has no failing branch: it calls
  stop on every live source, releases whatever the refs hold, and resets refs and state.
\<close>

definition release :: "(nat \<Rightarrow> resource) \<Rightarrow> nat option \<Rightarrow> resource list" where
  "release kind r = (case r of None \<Rightarrow> [] | Some i \<Rightarrow> [kind i])"

definition cleanup :: "hook \<Rightarrow> hook" where
  "cleanup s = s\<lparr>
     console := console s @ [''Cleaning up Gemini Live session...''],
     stopCalls := stopCalls s @ activeSourcesRef s,
     activeSourcesRef := [],
     released := released s
       @ release Processor (scriptProcessorRef s)
       @ release InputSource (inputSourceRef s)
       @ release Stream (streamRef s)
       @ release Context (inputAudioContextRef s)
       @ release Context (outputAudioContextRef s),
     scriptProcessorRef := None,
     inputSourceRef := None,
     streamRef := None,
     inputAudioContextRef := None,
     outputAudioContextRef := None,
     nextStartTimeRef := 0,
     sessionPromiseRef := None,
     sessionResolveRef := None,
     isConnected := False,
     isConnecting := False,
     isSpeaking := False,
     inputAnalyser := None,
     outputAnalyser := None \<rparr>"

subsection \<open>The wrapper promise\<close>

text \<open>
  \<open>session.sendRealtimeInput\<close> and \<open>session.close\<close> are the two things done with the
  session a wrapper promise delivers. \<open>promise_then\<close> is \<open>p.then(callback)\<close>: the
  callback runs if \<open>p\<close> is settled and is queued otherwise. \<open>resolve\<close> is the resolver the
  hook keeps in \<open>sessionResolveRef\<close>: settling a promise a second time does nothing.
\<close>

fun run_reaction :: "nat \<Rightarrow> reaction \<Rightarrow> hook \<Rightarrow> hook" where
  "run_reaction v (SendInput f) s = s\<lparr>sentFrames := sentFrames s @ [(v, f)]\<rparr>"
| "run_reaction v CloseSession s = s\<lparr>closedSessions := closedSessions s @ [v]\<rparr>"

definition promise_then :: "nat \<Rightarrow> reaction \<Rightarrow> hook \<Rightarrow> hook" where
  "promise_then p r s =
     (case map_of (resolved s) p of
        Some v \<Rightarrow> run_reaction v r s
      | None \<Rightarrow> s\<lparr>pending := pending s @ [(p, r)]\<rparr>)"

definition resolve :: "nat \<Rightarrow> nat \<Rightarrow> hook \<Rightarrow> hook" where
  "resolve p v s =
     (case map_of (resolved s) p of
        Some _ \<Rightarrow> s
      | None \<Rightarrow>
          fold (run_reaction v) (map snd (filter (\<lambda>q. fst q = p) (pending s)))
            (s\<lparr>resolved := (p, v) # resolved s,
               pending := filter (\<lambda>q. fst q \<noteq> p) (pending s)\<rparr>))"

subsection \<open>connect (lines 98-285)\<close>

text \<open>
  \<open>connect seenConnected seenConnecting fault\<close>: the first two arguments are the values of
  \<open>isConnected\<close> and \<open>isConnecting\<close> the callback captured when it was built; the guard
  at line 99 tests them and nothing else. The synchronous part can throw while it builds the
  input context, the output context or the API client; the outer catch then reports the error
  and tears down. The fault, if any, comes with the error's message.
\<close>

datatype connect_fault = AtInputContext | AtOutputContext | AtClient

definition connect_failed :: "string option \<Rightarrow> hook \<Rightarrow> hook" where
  "connect_failed msg s =
     cleanup ((log_line (or_default msg []) s)
       \<lparr>error := Some (or_default msg ''Failed to connect''), isConnecting := False\<rparr>)"

definition connect ::
  "bool \<Rightarrow> bool \<Rightarrow> (connect_fault \<times> string option) option \<Rightarrow> hook \<Rightarrow> hook" where
  "connect seenConnected seenConnecting fault s =
     (if seenConnected \<or> seenConnecting then s
      else
        let s1 = s\<lparr>isConnecting := True, error := None\<rparr>;
            i = nextId s1
        in case fault of
             Some (AtInputContext, msg) \<Rightarrow> connect_failed msg s1
           | Some (AtOutputContext, msg) \<Rightarrow> connect_failed msg (s1\<lparr>nextId := i + 1\<rparr>)
           | Some (AtClient, msg) \<Rightarrow>
               connect_failed msg
                 (s1\<lparr>inputAudioContextRef := Some i, outputAudioContextRef := Some (i + 1),
                     inputAnalyser := Some (i + 2), outputAnalyser := Some (i + 3),
                     nextId := i + 4\<rparr>)
           | None \<Rightarrow>
               s1\<lparr>inputAudioContextRef := Some i, outputAudioContextRef := Some (i + 1),
                  inputAnalyser := Some (i + 2), outputAnalyser := Some (i + 3),
                  sessionResolveRef := Some (i + 4), sessionPromiseRef := Some (i + 4),
                  nextId := i + 5, liveConnects := liveConnects s1 + 1\<rparr>)"

text \<open>The two reactions on the promise returned by \<open>ai.live.connect\<close> (lines 267-277).\<close>

definition session_resolved :: "nat \<Rightarrow> hook \<Rightarrow> hook" where
  "session_resolved v s =
     (case sessionResolveRef s of None \<Rightarrow> s | Some p \<Rightarrow> resolve p v s)"

definition session_rejected :: "string option \<Rightarrow> hook \<Rightarrow> hook" where
  "session_rejected msg s =
     cleanup ((log_line ''Session connection failed'' s)
       \<lparr>error := Some (or_default msg ''Connection failed'')\<rparr>)"

subsection \<open>onopen (lines 153-194)\<close>

text \<open>
  The try block asks for the microphone and builds the capture chain. It can fail when the
  microphone is refused, or later while the nodes are built, when the stream is already in
  \<open>streamRef\<close>. The catch is the same for both.
\<close>

datatype capture_outcome = Granted | Denied | GraphFailed

definition capture_failed :: "hook \<Rightarrow> hook" where
  "capture_failed s =
     cleanup ((log_line ''Microphone error:'' s)\<lparr>error := Some ''Microphone access failed.''\<rparr>)"

definition onopen :: "capture_outcome \<Rightarrow> hook \<Rightarrow> hook" where
  "onopen outcome s =
     (let s1 = (log_line ''Gemini Live Connection Opened'' s)
                 \<lparr>isConnected := True, isConnecting := False\<rparr>;
          i = nextId s1
      in case outcome of
           Denied \<Rightarrow> capture_failed s1
         | GraphFailed \<Rightarrow> capture_failed (s1\<lparr>streamRef := Some i, nextId := i + 1\<rparr>)
         | Granted \<Rightarrow>
             s1\<lparr>streamRef := Some i, inputSourceRef := Some (i + 1),
                scriptProcessorRef := Some (i + 2), nextId := i + 3\<rparr>)"

text \<open>\<open>processor.onaudioprocess\<close> (lines 171-185), for the frame \<open>f\<close> the device produced.\<close>

definition onaudioprocess :: "nat \<Rightarrow> hook \<Rightarrow> hook" where
  "onaudioprocess f s =
     (if scriptProcessorRef s = None then s
      else case sessionPromiseRef s of
             None \<Rightarrow> s
           | Some p \<Rightarrow> promise_then p (SendInput f) s)"

subsection \<open>onmessage (lines 195-253)\<close>

record message =
  audio :: "string option"
  interrupted :: bool

text \<open>
  What the platform answers while one message is handled: whether the output context is
  suspended and whether resuming it fails, the device time read at line 208, and the
  duration of the decoded buffer (\<open>None\<close> when \<open>decodeBase64\<close> or \<open>decodeAudioData\<close> throws).
\<close>

record playback_env =
  ctx_suspended :: bool
  resume_rejects :: bool
  currentTime :: rat
  decoded :: "rat option"

text \<open>\<open>if (base64Audio)\<close>: the payload is present and not the empty string.\<close>

definition has_audio :: "message \<Rightarrow> bool" where
  "has_audio m = (case audio m of None \<Rightarrow> False | Some d \<Rightarrow> d \<noteq> [])"

text \<open>Lines 206-209.\<close>

definition resync :: "rat \<Rightarrow> hook \<Rightarrow> hook" where
  "resync now s = s\<lparr>nextStartTimeRef := max (nextStartTimeRef s) now\<rparr>"

text \<open>Lines 218-237: create the source, start it at the cursor, advance the cursor, register it.\<close>

definition schedule :: "rat \<Rightarrow> hook \<Rightarrow> hook" where
  "schedule d s =
     s\<lparr>nextId := nextId s + 1,
       started := started s
         @ [\<lparr>seg_id = nextId s, seg_start = nextStartTimeRef s, seg_duration = d\<rparr>],
       nextStartTimeRef := number_add (nextStartTimeRef s) d,
       activeSourcesRef := set_add (nextId s) (activeSourcesRef s),
       isSpeaking := True\<rparr>"

definition play_chunk :: "playback_env \<Rightarrow> hook \<Rightarrow> hook" where
  "play_chunk env s =
     (if ctx_suspended env \<and> resume_rejects env then log_line ''Audio Decode Error'' s
      else
        let s1 = resync (currentTime env) s
        in case decoded env of
             None \<Rightarrow> log_line ''Audio Decode Error'' s1
           | Some d \<Rightarrow> schedule d s1)"

text \<open>Lines 244-252.\<close>

definition interrupt :: "hook \<Rightarrow> hook" where
  "interrupt s =
     (log_line ''Model interrupted'' s)
       \<lparr>stopCalls := stopCalls s @ activeSourcesRef s,
        activeSourcesRef := [],
        nextStartTimeRef := 0,
        isSpeaking := False\<rparr>"

definition onmessage :: "message \<Rightarrow> playback_env \<Rightarrow> hook \<Rightarrow> hook" where
  "onmessage m env s =
     (let s1 = (if has_audio m then play_chunk env s else s)
      in if interrupted m then interrupt s1 else s1)"

text \<open>
  \<open>source.onended\<close> (lines 229-237), run at time \<open>t\<close> of the timer clock, and the callback
  it hands to \<open>setTimeout(..., 200)\<close>.
\<close>

definition onended :: "nat \<Rightarrow> nat \<Rightarrow> hook \<Rightarrow> hook" where
  "onended t src s =
     s\<lparr>activeSourcesRef := set_delete src (activeSourcesRef s),
       timers := timers s @ [t + 200]\<rparr>"

definition grace_check :: "hook \<Rightarrow> hook" where
  "grace_check s = (if length (activeSourcesRef s) = 0 then s\<lparr>isSpeaking := False\<rparr> else s)"

text \<open>The timer clock reaches \<open>t\<close>: every timer that is due runs its callback and is gone.\<close>

definition tick :: "nat \<Rightarrow> hook \<Rightarrow> hook" where
  "tick t s =
     fold (\<lambda>_. grace_check) (filter (\<lambda>due. due \<le> t) (timers s))
       (s\<lparr>timers := filter (\<lambda>due. \<not> due \<le> t) (timers s)\<rparr>)"

subsection \<open>onclose, onerror, disconnect (lines 254-303)\<close>

definition onclose :: "hook \<Rightarrow> hook" where
  "onclose s = cleanup (log_line ''Gemini Connection Closed'' s)"

definition onerror :: "hook \<Rightarrow> hook" where
  "onerror s = cleanup ((log_line ''Gemini Connection Error'' s)\<lparr>error := Some ''Connection error.''\<rparr>)"

text \<open>
  \<open>disconnect\<close> queues the close on the wrapper promise, if there is one, and then cleans up.
  The queued callback touches nothing but the session.
\<close>

definition disconnect :: "hook \<Rightarrow> hook" where
  "disconnect s =
     cleanup (case sessionPromiseRef s of
                None \<Rightarrow> s
              | Some p \<Rightarrow> promise_then p CloseSession s)"

subsection \<open>The event loop\<close>

text \<open>
  One event per handler invocation, with what the platform answers in it. \<open>Connect\<close> is a
  call of \<open>connect\<close> through the callback of a render that follows the latest change of the
  flags, so that it has captured their current values; a call through a callback that
  captured other values is \<open>connect\<close> applied to those values. \<open>Ended t src\<close> is the
  \<open>onended\<close> of source \<open>src\<close> at time \<open>t\<close> of the timer clock; \<open>Tick t\<close> is the timer
  clock reaching \<open>t\<close>; \<open>Unmount\<close> is the effect cleanup of lines 305-309.
\<close>

datatype event =
    Connect "(connect_fault \<times> string option) option"
  | SessionResolved nat
  | SessionRejected "string option"
  | OnOpen capture_outcome
  | AudioProcess nat
  | OnMessage message playback_env
  | Ended nat nat
  | Tick nat
  | OnClose
  | OnError
  | Disconnect
  | Unmount

fun step :: "event \<Rightarrow> hook \<Rightarrow> hook" where
  "step (Connect fault) s = connect (isConnected s) (isConnecting s) fault s"
| "step (SessionResolved v) s = session_resolved v s"
| "step (SessionRejected msg) s = session_rejected msg s"
| "step (OnOpen outcome) s = onopen outcome s"
| "step (AudioProcess f) s = onaudioprocess f s"
| "step (OnMessage m env) s = onmessage m env s"
| "step (Ended t src) s = onended t src s"
| "step (Tick t) s = tick t s"
| "step OnClose s = onclose s"
| "step OnError s = onerror s"
| "step Disconnect s = disconnect s"
| "step Unmount s = cleanup s"

fun run :: "event list \<Rightarrow> hook \<Rightarrow> hook" where
  "run [] s = s"
| "run (e # es) s = run es (step e s)"

subsection \<open>Notions used to state the properties\<close>

text \<open>
  The interval of the audio clock a started segment occupies, from its start to the sum of
  start and duration as the code computes it, and a list of segments without overlap.
\<close>

definition seg_end :: "segment \<Rightarrow> rat" where
  "seg_end g = number_add (seg_start g) (seg_duration g)"

definition interval :: "segment \<Rightarrow> rat set" where
  "interval g = {seg_start g ..< seg_end g}"

definition no_overlap :: "segment list \<Rightarrow> bool" where
  "no_overlap gs \<longleftrightarrow>
     (\<forall>i<length gs. \<forall>j<length gs. i \<noteq> j \<longrightarrow> interval (gs ! i) \<inter> interval (gs ! j) = {})"

text \<open>The segments started between an earlier state and a later one.\<close>

definition scheduled_since :: "hook \<Rightarrow> hook \<Rightarrow> segment list" where
  "scheduled_since s s' = drop (length (started s)) (started s')"

text \<open>
  What happens during undisturbed playback: messages that carry no interruption, handled
  at a device time that is a double, whose decoded buffers have a duration that is a double
  and not negative, in any interleaving with capture frames, ended sources, timers and the
  settling of the connection promise.
\<close>

fun playback_event :: "event \<Rightarrow> bool" where
  "playback_event (OnMessage m env) =
     (\<not> interrupted m \<and> is_double (currentTime env) \<and>
      (case decoded env of None \<Rightarrow> True | Some d \<Rightarrow> is_double d \<and> 0 \<le> d))"
| "playback_event (AudioProcess f) = True"
| "playback_event (Ended t src) = True"
| "playback_event (Tick t) = True"
| "playback_event (SessionResolved v) = True"
| "playback_event _ = False"

text \<open>
  Segments that follow one another from cursor value \<open>a\<close> to cursor value \<open>b\<close>: each starts
  at or after the end of the one before.
\<close>

fun chained :: "rat \<Rightarrow> segment list \<Rightarrow> rat \<Rightarrow> bool" where
  "chained a [] b = (a \<le> b)"
| "chained a (g # gs) b = (a \<le> seg_start g \<and> seg_start g \<le> seg_end g \<and> chained (seg_end g) gs b)"

text \<open>The cursor is a double and not negative.\<close>

definition cursor_ok :: "hook \<Rightarrow> bool" where
  "cursor_ok s \<longleftrightarrow> is_double (nextStartTimeRef s) \<and> 0 \<le> nextStartTimeRef s"

text \<open>
  The state the spec calls Idle: nothing is connected or connecting, every ref is empty, the
  live set is empty and the cursor is zero.
\<close>

definition idle :: "hook \<Rightarrow> bool" where
  "idle s \<longleftrightarrow>
     \<not> isConnected s \<and> \<not> isConnecting s \<and> \<not> isSpeaking s \<and>
     inputAudioContextRef s = None \<and> outputAudioContextRef s = None \<and>
     scriptProcessorRef s = None \<and> inputSourceRef s = None \<and> streamRef s = None \<and>
     inputAnalyser s = None \<and> outputAnalyser s = None \<and>
     nextStartTimeRef s = 0 \<and> activeSourcesRef s = [] \<and>
     sessionResolveRef s = None \<and> sessionPromiseRef s = None"

text \<open>The line \<open>cleanup\<close> writes to the console each time it runs.\<close>

definition cleanup_line :: string where
  "cleanup_line = ''Cleaning up Gemini Live session...''"

text \<open>A queued callback that sends a captured frame.\<close>

fun is_frame :: "reaction \<Rightarrow> bool" where
  "is_frame (SendInput f) = True"
| "is_frame CloseSession = False"

text \<open>
  What holds of the capture chain in every state the hook can reach: a processor is installed
  only while the session is open, the session is never open and connecting at once, the
  wrapper promises in use were numbered before \<open>nextId\<close>, and a frame waits on the promise
  the resolver in \<open>sessionResolveRef\<close> settles only while the session is open.
\<close>

definition capture_inv :: "hook \<Rightarrow> bool" where
  "capture_inv s \<longleftrightarrow>
     (scriptProcessorRef s \<noteq> None \<longrightarrow> isConnected s) \<and>
     (isConnected s \<longrightarrow> \<not> isConnecting s) \<and>
     (\<forall>q\<in>set (pending s). fst q < nextId s) \<and>
     (\<forall>p. sessionResolveRef s = Some p \<longrightarrow> p < nextId s) \<and>
     (\<forall>p. sessionPromiseRef s = Some p \<longrightarrow> p < nextId s) \<and>
     (\<forall>q\<in>set (pending s). sessionResolveRef s = Some (fst q) \<and> is_frame (snd q) \<longrightarrow> isConnected s)"

text \<open>What holds as long as \<open>onopen\<close> has not run.\<close>

definition never_opened :: "hook \<Rightarrow> bool" where
  "never_opened s \<longleftrightarrow>
     \<not> isConnected s \<and> scriptProcessorRef s = None \<and> inputSourceRef s = None \<and>
     streamRef s = None \<and> sentFrames s = [] \<and> (\<forall>q\<in>set (pending s). \<not> is_frame (snd q))"

fun is_onopen :: "event \<Rightarrow> bool" where
  "is_onopen (OnOpen outcome) = True"
| "is_onopen _ = False"

text \<open>
  The two synchronous parts of the audio branch of \<open>onmessage\<close>, on either side of the
  awaited decoding: the re-sync of the cursor (lines 206-209) and the commit (lines 218-237).
\<close>

datatype playback_part = Resynced rat | Committed rat

fun part :: "playback_part \<Rightarrow> hook \<Rightarrow> hook" where
  "part (Resynced now) s = resync now s"
| "part (Committed d) s = schedule d s"

fun part_ok :: "playback_part \<Rightarrow> bool" where
  "part_ok (Resynced now) = is_double now"
| "part_ok (Committed d) = (is_double d \<and> 0 \<le> d)"

text \<open>The started segments whose source is still in the live set.\<close>

definition live_segments :: "hook \<Rightarrow> segment list" where
  "live_segments s = filter (\<lambda>g. seg_id g \<in> set (activeSourcesRef s)) (started s)"

text \<open>
  What holds of the timeline in every state the hook can reach: sources are numbered before
  \<open>nextId\<close>, the live segments follow one another and end at or before the cursor, and
  the cursor is a double that is not negative.
\<close>

definition timeline_inv :: "hook \<Rightarrow> bool" where
  "timeline_inv s \<longleftrightarrow>
     (\<forall>g\<in>set (started s). seg_id g < nextId s) \<and>
     (\<forall>i\<in>set (activeSourcesRef s). i < nextId s) \<and>
     sorted_wrt (\<lambda>x y. seg_end x \<le> seg_start y) (live_segments s) \<and>
     (\<forall>g\<in>set (live_segments s). seg_end g \<le> nextStartTimeRef s) \<and>
     cursor_ok s"

text \<open>
  An event whose device time, if it reads one, is a double and whose decoded buffer, if any,
  has a duration that is a double and not negative.
\<close>

fun nonneg_event :: "event \<Rightarrow> bool" where
  "nonneg_event (OnMessage m env) =
     (is_double (currentTime env) \<and>
      (case decoded env of None \<Rightarrow> True | Some d \<Rightarrow> is_double d \<and> 0 \<le> d))"
| "nonneg_event _ = True"

text \<open>
  The part of the capture invariant that also survives a call of \<open>connect\<close> through a
  callback that captured stale flags, and the states the hook reaches when such calls occur
  among the events.
\<close>

definition gate_inv :: "hook \<Rightarrow> bool" where
  "gate_inv s \<longleftrightarrow>
     (scriptProcessorRef s \<noteq> None \<longrightarrow> isConnected s) \<and>
     (\<forall>q\<in>set (pending s). fst q < nextId s) \<and>
     (\<forall>p. sessionResolveRef s = Some p \<longrightarrow> p < nextId s) \<and>
     (\<forall>p. sessionPromiseRef s = Some p \<longrightarrow> p < nextId s) \<and>
     (\<forall>q\<in>set (pending s). sessionResolveRef s = Some (fst q) \<and> is_frame (snd q) \<longrightarrow> isConnected s)"

inductive reachable :: "hook \<Rightarrow> bool" where
  start: "reachable init"
| event: "reachable s \<Longrightarrow> reachable (step e s)"
| stale: "reachable s \<Longrightarrow> reachable (connect seenConnected seenConnecting fault s)"

text \<open>The timers a handler sets, and the events that leave a timer due at \<open>due\<close> waiting.\<close>

fun timers_set :: "event \<Rightarrow> nat list" where
  "timers_set (Ended t src) = [t + 200]"
| "timers_set _ = []"

fun is_tick :: "event \<Rightarrow> bool" where
  "is_tick (Tick t) = True"
| "is_tick _ = False"

fun not_yet :: "nat \<Rightarrow> event \<Rightarrow> bool" where
  "not_yet due (Tick t) = (t < due)"
| "not_yet due _ = True"

text \<open>Inputs used in examples: a chunk that decodes, a chunk that does not, an interruption.\<close>

definition chunk_event :: "string \<Rightarrow> rat \<Rightarrow> rat \<Rightarrow> event" where
  "chunk_event b now d = OnMessage \<lparr>audio = Some b, interrupted = False\<rparr>
     \<lparr>ctx_suspended = False, resume_rejects = False, currentTime = now, decoded = Some d\<rparr>"

definition bad_chunk :: message where
  "bad_chunk = \<lparr>audio = Some ''@@'', interrupted = False\<rparr>"

definition decode_fails_at :: "rat \<Rightarrow> playback_env" where
  "decode_fails_at now =
     \<lparr>ctx_suspended = False, resume_rejects = False, currentTime = now, decoded = None\<rparr>"

definition interruption :: message where
  "interruption = \<lparr>audio = None, interrupted = True\<rparr>"

definition running_at :: "rat \<Rightarrow> playback_env" where
  "running_at now =
     \<lparr>ctx_suspended = False, resume_rejects = False, currentTime = now, decoded = None\<rparr>"

definition opened :: hook where
  "opened = run [Connect None, SessionResolved 7, OnOpen Granted] init"

text \<open>
  A run of playback events on the numbers 0.1 and 0.7, whose sum as doubles is
  0.7999999999999999.
\<close>

definition sample_playback :: "event list" where
  "sample_playback =
     [chunk_event ''pcm'' (double_round (1/10)) (double_round (7/10)), Ended 40 8,
      chunk_event ''pcm'' 0 (double_round (1/10)), AudioProcess 1,
      OnMessage bad_chunk (decode_fails_at (1/2)), chunk_event ''pcm'' 12 (1/4)]"

definition two_live :: hook where
  "two_live = run [chunk_event ''pcm'' 10 (1/2), chunk_event ''pcm'' 10 (1/4)] opened"

section \<open>Properties\<close>

subsection \<open>Rounding\<close>

lemma pow2_pos [simp]: "0 < (2::rat) powi e"
  by simp

lemma pow2_mono: "m \<le> n \<Longrightarrow> (2::rat) powi m \<le> 2 powi n"
  by (rule power_int_increasing) simp_all

lemma pow2_Suc: "(2::rat) powi (e + 1) = 2 * 2 powi e"
  by (simp add: power_int_add)

lemma pow2_52: "(2::rat) powi e = 2 ^ 52 * 2 powi (e - 52)"
proof -
  have "(2::rat) powi e = 2 powi (52 + (e - 52))" by simp
  also have "\<dots> = 2 powi 52 * 2 powi (e - 52)" by (rule power_int_add) simp
  finally show ?thesis by simp
qed

lemma expo_bounds:
  assumes "0 < q"
  shows "2 powi expo q \<le> q" and "q < 2 powi (expo q + 1)"
proof -
  have "2 powi expo q \<le> q \<and> q < 2 powi (expo q + 1)"
  proof (cases "1 \<le> q")
    case True
    define x where "x = \<lfloor>q\<rfloor>"
    from True have x: "0 < x" by (simp add: x_def)
    then have b: "1 \<le> bitlen x" by (simp add: bitlen_alt_def)
    from bitlen_bounds [OF x] have lo: "2 ^ nat (bitlen x - 1) \<le> x" and hi: "x < 2 ^ nat (bitlen x)"
      by simp_all
    have e: "expo q = bitlen x - 1" using True by (simp add: expo_def x_def)
    have "(2::rat) powi (bitlen x - 1) = of_int (2 ^ nat (bitlen x - 1))"
      using b by (simp add: power_int_nonneg_exp)
    also have "\<dots> \<le> of_int x" using lo by (simp only: of_int_le_iff)
    also have "\<dots> \<le> q" by (simp add: x_def)
    finally have l: "2 powi expo q \<le> q" by (simp add: e)
    have "q < of_int (x + 1)" unfolding x_def by linarith
    also have "\<dots> \<le> of_int (2 ^ nat (bitlen x))"
    proof -
      from hi have "x + 1 \<le> 2 ^ nat (bitlen x)" by simp
      then show ?thesis by (simp only: of_int_le_iff)
    qed
    also have "\<dots> = (2::rat) powi (bitlen x)" using b by (simp add: power_int_nonneg_exp)
    finally have "q < 2 powi (expo q + 1)" by (simp add: e)
    with l show ?thesis by blast
  next
    case False
    define y where "y = 1 / q"
    define x where "x = \<lceil>y\<rceil> - 1"
    from False assms have y: "1 < y" by (simp add: y_def)
    then have "1 < \<lceil>y\<rceil>" by (simp add: less_ceiling_iff)
    then have x: "0 < x" by (simp add: x_def)
    then have b: "1 \<le> bitlen x" by (simp add: bitlen_alt_def)
    from bitlen_bounds [OF x] have lo: "2 ^ nat (bitlen x - 1) \<le> x" and hi: "x < 2 ^ nat (bitlen x)"
      by simp_all
    have e: "expo q = - bitlen x" using False by (simp add: expo_def x_def y_def)
    have "y \<le> of_int (x + 1)" unfolding x_def by simp
    also have "\<dots> \<le> of_int (2 ^ nat (bitlen x))"
    proof -
      from hi have "x + 1 \<le> 2 ^ nat (bitlen x)" by simp
      then show ?thesis by (simp only: of_int_le_iff)
    qed
    also have "\<dots> = (2::rat) powi (bitlen x)" using b by (simp add: power_int_nonneg_exp)
    finally have "1 / q \<le> 2 powi (bitlen x)" by (simp add: y_def)
    with assms have "1 / 2 powi (bitlen x) \<le> q"
      by (simp add: field_simps)
    then have l: "2 powi expo q \<le> q" by (simp add: e power_int_minus_divide)
    have "(2::rat) powi (bitlen x - 1) = of_int (2 ^ nat (bitlen x - 1))"
      using b by (simp add: power_int_nonneg_exp)
    also have "\<dots> \<le> of_int x" using lo by (simp only: of_int_le_iff)
    also have "\<dots> < y" unfolding x_def using ceiling_correct [of y] by simp
    finally have "2 powi (bitlen x - 1) < 1 / q" by (simp add: y_def)
    with assms have "q < 1 / 2 powi (bitlen x - 1)"
      by (simp add: field_simps)
    also have "\<dots> = 2 powi (- (bitlen x - 1))" by (simp only: power_int_minus_divide)
    also have "- (bitlen x - 1) = expo q + 1" by (simp add: e)
    finally have "q < 2 powi (expo q + 1)" .
    with l show ?thesis by blast
  qed
  then show "2 powi expo q \<le> q" and "q < 2 powi (expo q + 1)" by simp_all
qed

lemma expo_unique:
  assumes "0 < q" and "2 powi e \<le> q" and "q < 2 powi (e + 1)"
  shows "expo q = e"
proof (rule ccontr)
  assume ne: "expo q \<noteq> e"
  show False
  proof (cases "expo q < e")
    case True
    then have "(2::rat) powi (expo q + 1) \<le> 2 powi e" by (intro pow2_mono) simp
    with assms(2) expo_bounds(2) [OF assms(1)] show False by simp
  next
    case False
    with ne have "(2::rat) powi (e + 1) \<le> 2 powi expo q" by (intro pow2_mono) simp
    with assms(3) expo_bounds(1) [OF assms(1)] show False by simp
  qed
qed

lemma expo_mono:
  assumes "0 < x" and "x \<le> q"
  shows "expo x \<le> expo q"
proof (rule ccontr)
  assume "\<not> expo x \<le> expo q"
  then have "(2::rat) powi (expo q + 1) \<le> 2 powi expo x" by (intro pow2_mono) simp
  moreover from assms have "0 < q" by simp
  ultimately show False
    using expo_bounds(2) [of q] expo_bounds(1) [OF assms(1)] assms(2) by simp
qed

lemma round_even_ge: "of_int n \<le> y \<Longrightarrow> n \<le> round_even y"
proof -
  assume "of_int n \<le> y"
  then have "n \<le> \<lfloor>y\<rfloor>" by (simp add: le_floor_iff)
  moreover have "\<lfloor>y\<rfloor> \<le> round_even y" by (simp add: round_even_def Let_def)
  ultimately show ?thesis by simp
qed

lemma round_even_of_int [simp]: "round_even (of_int n) = n"
  by (simp add: round_even_def)

lemma round_even_le: "y \<le> of_int n \<Longrightarrow> round_even y \<le> n"
proof (cases "y = of_int n")
  case True
  then show ?thesis by simp
next
  case False
  assume "y \<le> of_int n"
  with False have "y < of_int n" by simp
  then have "\<lfloor>y\<rfloor> < n" by (simp add: floor_less_iff)
  moreover have "round_even y \<le> \<lfloor>y\<rfloor> + 1" by (simp add: round_even_def Let_def)
  ultimately show ?thesis by simp
qed

lemma scaled_bounds:
  assumes "0 < q"
  shows "2 ^ 52 \<le> q / ulp q" and "q / ulp q < 2 ^ 53"
proof -
  have u: "0 < ulp q" by (simp add: ulp_def)
  from expo_bounds(1) [OF assms] have "2 ^ 52 * ulp q \<le> q"
    using pow2_52 [of "expo q"] by (simp add: ulp_def)
  with u show "2 ^ 52 \<le> q / ulp q" by (simp add: field_simps)
  from expo_bounds(2) [OF assms] have "q < 2 * (2 ^ 52 * ulp q)"
    using pow2_52 [of "expo q"] by (simp add: ulp_def pow2_Suc)
  with u show "q / ulp q < 2 ^ 53" by (simp add: field_simps)
qed

lemma round_pos_grid:
  assumes "2 ^ 52 \<le> n" and "n < 2 ^ 53"
  shows "round_pos (of_int n * 2 powi (e - 52)) = of_int n * 2 powi (e - 52)"
proof -
  let ?u = "(2::rat) powi (e - 52)"
  let ?r = "of_int n * ?u"
  from assms have n: "(2::rat) ^ 52 \<le> of_int n" "of_int n < (2::rat) ^ 53"
    by (metis of_int_le_iff of_int_numeral of_int_power,
        metis of_int_less_iff of_int_numeral of_int_power)
  have u: "0 < ?u" by simp
  from n u have r: "0 < ?r" by (simp add: zero_less_mult_iff)
  have "2 powi e \<le> ?r"
    using n(1) u pow2_52 [of e] by (simp add: mult_right_mono)
  moreover have "?r < 2 powi (e + 1)"
    using n(2) u pow2_52 [of e] by (simp add: pow2_Suc)
  ultimately have "expo ?r = e" using r by (intro expo_unique)
  then have "ulp ?r = ?u" by (simp add: ulp_def)
  then show ?thesis by (simp add: round_pos_def)
qed

lemma round_pos_fixed:
  assumes "0 < q"
  shows "round_pos (round_pos q) = round_pos q" and "0 < round_pos q"
proof -
  define n where "n = round_even (q / ulp q)"
  from scaled_bounds [OF assms] have lo: "2 ^ 52 \<le> n" and hi: "n \<le> 2 ^ 53"
    unfolding n_def by (auto intro!: round_even_ge round_even_le)
  have rp: "round_pos q = of_int n * 2 powi (expo q - 52)"
    by (simp add: round_pos_def n_def ulp_def)
  from lo have "(0::rat) < of_int n" by simp
  then show "0 < round_pos q" by (simp add: rp zero_less_mult_iff)
  show "round_pos (round_pos q) = round_pos q"
  proof (cases "n < 2 ^ 53")
    case True
    with lo show ?thesis unfolding rp by (rule round_pos_grid)
  next
    case False
    with hi have n: "n = 2 ^ 53" by simp
    have "round_pos q = of_int (2 ^ 52) * 2 powi (expo q + 1 - 52)"
      using pow2_Suc [of "expo q - 52"] by (simp add: rp n algebra_simps)
    moreover have "round_pos (of_int (2 ^ 52) * 2 powi (expo q + 1 - 52))
        = of_int (2 ^ 52) * 2 powi (expo q + 1 - 52)"
      by (rule round_pos_grid) simp_all
    ultimately show ?thesis by simp
  qed
qed

lemma double_round_idem: "is_double (double_round q)"
proof -
  consider "q = 0" | "0 < q" | "q < 0" by linarith
  then show ?thesis
  proof cases
    case 1
    then show ?thesis by (simp add: is_double_def double_round_def)
  next
    case 2
    with round_pos_fixed [OF 2] show ?thesis
      by (simp add: is_double_def double_round_def)
  next
    case 3
    then have "0 < - q" by simp
    from round_pos_fixed [OF this] 3 show ?thesis
      by (simp add: is_double_def double_round_def)
  qed
qed

lemma number_add_ge:
  assumes "is_double x" and "0 \<le> x" and "0 \<le> d"
  shows "x \<le> number_add x d"
proof (cases "x = 0")
  case True
  show ?thesis
  proof (cases "d = 0")
    case True
    with \<open>x = 0\<close> show ?thesis by (simp add: number_add_def double_round_def)
  next
    case False
    with assms(3) have "0 < d" by simp
    from round_pos_fixed(2) [OF this] \<open>x = 0\<close> \<open>0 < d\<close> show ?thesis
      by (simp add: number_add_def double_round_def)
  qed
next
  case False
  with assms(2) have x: "0 < x" by simp
  with assms(3) have q: "0 < x + d" and xq: "x \<le> x + d" by simp_all
  from assms(1) x have fx: "round_pos x = x" by (simp add: is_double_def double_round_def)
  have uq: "0 < ulp (x + d)" by (simp add: ulp_def)
  have res: "number_add x d = of_int (round_even ((x + d) / ulp (x + d))) * ulp (x + d)"
    using q by (simp add: number_add_def double_round_def round_pos_def)
  from expo_mono [OF x xq] have le: "expo x \<le> expo (x + d)" .
  show ?thesis
  proof (cases "expo x = expo (x + d)")
    case True
    then have same: "ulp (x + d) = ulp x" by (simp add: ulp_def)
    have ux: "0 < ulp x" by (simp add: ulp_def)
    from fx have "of_int (round_even (x / ulp x)) * ulp x = x" by (simp add: round_pos_def)
    with ux have "of_int (round_even (x / ulp x)) = x / ulp x"
      by (simp add: nonzero_eq_divide_eq)
    moreover have "x / ulp x \<le> (x + d) / ulp x"
      using xq uq by (simp add: same divide_right_mono)
    ultimately have "round_even (x / ulp x) \<le> round_even ((x + d) / ulp x)"
      by (intro round_even_ge) simp
    then have "of_int (round_even (x / ulp x)) * ulp x
        \<le> (of_int (round_even ((x + d) / ulp x)) :: rat) * ulp x"
      using uq by (simp add: same)
    then show ?thesis using fx by (simp add: res same round_pos_def)
  next
    case False
    with le have lt: "expo x + 1 \<le> expo (x + d)" by simp
    have "x < 2 powi (expo x + 1)" by (rule expo_bounds(2) [OF x])
    also have "\<dots> \<le> 2 powi expo (x + d)" using lt by (rule pow2_mono)
    also have "\<dots> = of_int (2 ^ 52) * ulp (x + d)"
      using pow2_52 [of "expo (x + d)"] by (simp add: ulp_def)
    also have "\<dots> \<le> of_int (round_even ((x + d) / ulp (x + d))) * ulp (x + d)"
    proof -
      have "(2::int) ^ 52 \<le> round_even ((x + d) / ulp (x + d))"
        using scaled_bounds(1) [OF q] by (intro round_even_ge) simp
      then have "(of_int (2 ^ 52) :: rat) \<le> of_int (round_even ((x + d) / ulp (x + d)))"
        by (simp only: of_int_le_iff)
      with uq show ?thesis by (simp only: mult_le_cancel_right_pos)
    qed
    finally show ?thesis by (simp add: res)
  qed
qed

lemma number_add_double: "is_double (number_add x y)"
  unfolding number_add_def by (rule double_round_idem)

lemma is_double_0 [simp]: "is_double 0"
  by (simp add: is_double_def double_round_def)

lemma is_double_max: "is_double a \<Longrightarrow> is_double b \<Longrightarrow> is_double (max a b)"
  by (simp add: max_def)

text \<open>Sums of the numbers used in the examples.\<close>

lemma sum_10_half: "number_add 10 (1/2) = 21/2"
  by code_simp

lemma sum_21_half_quarter: "number_add (21/2) (1/4) = 43/4"
  by code_simp

lemma sum_scenario_2: "number_add (21/2) (double_round (3/10)) = double_round (54/5)"
  by code_simp

lemma sum_scenario_3: "number_add (double_round (54/5)) (double_round (1/5)) = 11"
  by code_simp

lemma sum_3_quarter: "number_add 3 (1/4) = 13/4"
  by code_simp

subsection \<open>Auxiliary facts\<close>

lemma fold_run_reaction:
  "fold (run_reaction v) rs s =
     s\<lparr>sentFrames := sentFrames s @ concat (map (\<lambda>r. case r of SendInput f \<Rightarrow> [(v, f)] | CloseSession \<Rightarrow> []) rs),
       closedSessions := closedSessions s @ concat (map (\<lambda>r. case r of SendInput f \<Rightarrow> [] | CloseSession \<Rightarrow> [v]) rs)\<rparr>"
proof (induction rs arbitrary: s)
  case Nil
  show ?case by simp
next
  case (Cons r rs)
  show ?case by (cases r) (simp_all add: Cons.IH)
qed

lemma fold_grace_check:
  "fold (\<lambda>_. grace_check) ds s =
     (if ds \<noteq> [] \<and> activeSourcesRef s = [] then s\<lparr>isSpeaking := False\<rparr> else s)"
proof (induction ds arbitrary: s)
  case Nil
  show ?case by simp
next
  case (Cons d ds)
  have unroll: "fold (\<lambda>_. grace_check) (d # ds) s = fold (\<lambda>_. grace_check) ds (grace_check s)"
    by simp
  have live: "activeSourcesRef (grace_check s) = activeSourcesRef s"
    by (simp add: grace_check_def)
  show ?case
    unfolding unroll Cons.IH [of "grace_check s"] live
    by (simp add: grace_check_def)
qed

lemma chained_le: "chained a gs b \<Longrightarrow> a \<le> b"
proof (induction gs arbitrary: a)
  case Nil
  then show ?case by simp
next
  case (Cons g gs)
  from Cons.prems have "a \<le> seg_end g" and "chained (seg_end g) gs b"
    by simp_all
  with Cons.IH [of "seg_end g"] show ?case by simp
qed

lemma chained_append: "chained a xs b \<Longrightarrow> chained b ys c \<Longrightarrow> chained a (xs @ ys) c"
proof (induction xs arbitrary: a)
  case Nil
  then show ?case
    by (cases ys) (auto dest: chained_le)
next
  case (Cons x xs)
  then show ?case by simp
qed

lemma chained_bounds:
  "chained a gs b \<Longrightarrow> g \<in> set gs \<Longrightarrow> a \<le> seg_start g \<and> seg_end g \<le> b"
proof (induction gs arbitrary: a)
  case Nil
  then show ?case by simp
next
  case (Cons x xs)
  show ?case
  proof (cases "g = x")
    case True
    with Cons.prems show ?thesis by (auto dest: chained_le)
  next
    case False
    with Cons.prems have "g \<in> set xs" and "chained (seg_end x) xs b" by auto
    with Cons.IH have "seg_end x \<le> seg_start g \<and> seg_end g \<le> b" by blast
    moreover from Cons.prems have "a \<le> seg_end x" by auto
    ultimately show ?thesis by auto
  qed
qed

lemma chained_sorted: "chained a gs b \<Longrightarrow> sorted_wrt (\<lambda>x y. seg_end x \<le> seg_start y) gs"
  by (induction gs arbitrary: a) (auto dest: chained_bounds)

lemma sorted_no_overlap:
  assumes "sorted_wrt (\<lambda>x y. seg_end x \<le> seg_start y) gs"
  shows "no_overlap gs"
  unfolding no_overlap_def
proof (intro allI impI)
  fix i j
  assume ij: "i < length gs" "j < length gs" "i \<noteq> j"
  have disj: "interval x \<inter> interval y = {}" if "seg_end x \<le> seg_start y" for x y
    using that by (auto simp: interval_def)
  show "interval (gs ! i) \<inter> interval (gs ! j) = {}"
  proof (cases "i < j")
    case True
    with ij have "seg_end (gs ! i) \<le> seg_start (gs ! j)"
      by (intro sorted_wrt_nth_less [OF assms])
    then show ?thesis by (rule disj)
  next
    case False
    with ij have "j < i" by simp
    with ij have "seg_end (gs ! j) \<le> seg_start (gs ! i)"
      by (intro sorted_wrt_nth_less [OF assms])
    then have "interval (gs ! j) \<inter> interval (gs ! i) = {}" by (rule disj)
    then show ?thesis by blast
  qed
qed

lemma cursor_ok_resync:
  "cursor_ok s \<Longrightarrow> is_double now \<Longrightarrow> cursor_ok (resync now s)"
  by (auto simp add: cursor_ok_def resync_def max_def)

lemma schedule_chained:
  assumes "cursor_ok s" and "is_double d" and "0 \<le> d"
  shows "started (schedule d s) = started s
           @ [\<lparr>seg_id = nextId s, seg_start = nextStartTimeRef s, seg_duration = d\<rparr>]"
    and "chained (nextStartTimeRef s)
           [\<lparr>seg_id = nextId s, seg_start = nextStartTimeRef s, seg_duration = d\<rparr>]
           (nextStartTimeRef (schedule d s))"
    and "cursor_ok (schedule d s)"
proof -
  from assms have ge: "nextStartTimeRef s \<le> number_add (nextStartTimeRef s) d"
    by (intro number_add_ge) (simp_all add: cursor_ok_def)
  show "started (schedule d s) = started s
           @ [\<lparr>seg_id = nextId s, seg_start = nextStartTimeRef s, seg_duration = d\<rparr>]"
    by (simp add: schedule_def)
  from ge show "chained (nextStartTimeRef s)
           [\<lparr>seg_id = nextId s, seg_start = nextStartTimeRef s, seg_duration = d\<rparr>]
           (nextStartTimeRef (schedule d s))"
    by (simp add: schedule_def seg_end_def)
  from ge assms(1) have "0 \<le> number_add (nextStartTimeRef s) d"
    by (simp add: cursor_ok_def)
  then show "cursor_ok (schedule d s)"
    by (simp add: cursor_ok_def schedule_def number_add_double)
qed

lemma step_chained:
  assumes "playback_event e" and "cursor_ok s"
  shows "\<exists>new. started (step e s) = started s @ new \<and>
           chained (nextStartTimeRef s) new (nextStartTimeRef (step e s)) \<and>
           cursor_ok (step e s)"
proof -
  have same: ?thesis
    if "started (step e s) = started s" "nextStartTimeRef (step e s) = nextStartTimeRef s"
  proof -
    from that have "started (step e s) = started s @ []"
      and "chained (nextStartTimeRef s) [] (nextStartTimeRef (step e s))" by simp_all
    moreover from that assms(2) have "cursor_ok (step e s)" by (simp add: cursor_ok_def)
    ultimately show ?thesis by blast
  qed
  show ?thesis
  proof (cases e)
    case (OnMessage m env)
    with assms(1) have quiet: "\<not> interrupted m" and now: "is_double (currentTime env)"
      by simp_all
    show ?thesis
    proof (cases "has_audio m \<and> \<not> (ctx_suspended env \<and> resume_rejects env)")
      case False
      with quiet OnMessage show ?thesis
        by (intro same) (auto simp: onmessage_def play_chunk_def log_line_def)
    next
      case True
      let ?s1 = "resync (currentTime env) s"
      from assms(2) now have ok1: "cursor_ok ?s1" by (rule cursor_ok_resync)
      have le1: "nextStartTimeRef s \<le> nextStartTimeRef ?s1" by (simp add: resync_def)
      have st1: "started ?s1 = started s" by (simp add: resync_def)
      show ?thesis
      proof (cases "decoded env")
        case None
        with True quiet OnMessage have "step e s = log_line ''Audio Decode Error'' ?s1"
          by (auto simp: onmessage_def play_chunk_def)
        then have "started (step e s) = started s @ []"
          and "nextStartTimeRef (step e s) = nextStartTimeRef ?s1"
          by (simp_all add: log_line_def resync_def)
        moreover from this(2) le1 have
          "chained (nextStartTimeRef s) [] (nextStartTimeRef (step e s))" by simp
        moreover from ok1 \<open>nextStartTimeRef (step e s) = nextStartTimeRef ?s1\<close>
        have "cursor_ok (step e s)" by (simp add: cursor_ok_def)
        ultimately show ?thesis by blast
      next
        case (Some d)
        with assms(1) OnMessage have d: "is_double d" "0 \<le> d" by simp_all
        from Some True quiet OnMessage have eq: "step e s = schedule d ?s1"
          by (auto simp: onmessage_def play_chunk_def)
        let ?g = "\<lparr>seg_id = nextId ?s1, seg_start = nextStartTimeRef ?s1, seg_duration = d\<rparr>"
        from schedule_chained [OF ok1 d] have "started (step e s) = started s @ [?g]"
          and c: "chained (nextStartTimeRef ?s1) [?g] (nextStartTimeRef (step e s))"
          and "cursor_ok (step e s)"
          by (simp_all add: eq st1)
        moreover from c le1 have "chained (nextStartTimeRef s) [?g] (nextStartTimeRef (step e s))"
          by simp
        ultimately show ?thesis by blast
      qed
    qed
  next
    case (AudioProcess f)
    then show ?thesis
      by (intro same)
        (auto simp: onaudioprocess_def promise_then_def split: option.splits reaction.splits)
  next
    case (Ended t src)
    then show ?thesis by (intro same) (auto simp: onended_def)
  next
    case (Tick t)
    then show ?thesis by (intro same) (auto simp: tick_def fold_grace_check)
  next
    case (SessionResolved v)
    then show ?thesis
      by (intro same)
        (auto simp: session_resolved_def resolve_def fold_run_reaction split: option.splits)
  qed (use assms(1) in auto)
qed

lemma run_chained:
  "list_all playback_event evs \<Longrightarrow> cursor_ok s \<Longrightarrow>
     \<exists>new. started (run evs s) = started s @ new \<and>
           chained (nextStartTimeRef s) new (nextStartTimeRef (run evs s)) \<and>
           cursor_ok (run evs s)"
proof (induction evs arbitrary: s)
  case Nil
  then show ?case by simp
next
  case (Cons e evs)
  from Cons.prems have e: "playback_event e" and evs: "list_all playback_event evs" by simp_all
  from step_chained [OF e Cons.prems(2)] obtain n1 where
    n1: "started (step e s) = started s @ n1"
        "chained (nextStartTimeRef s) n1 (nextStartTimeRef (step e s))"
        "cursor_ok (step e s)" by blast
  from Cons.IH [OF evs n1(3)] obtain n2 where
    n2: "started (run evs (step e s)) = started (step e s) @ n2"
        "chained (nextStartTimeRef (step e s)) n2 (nextStartTimeRef (run evs (step e s)))"
        "cursor_ok (run evs (step e s))"
    by blast
  from n1 n2 have "started (run (e # evs) s) = started s @ (n1 @ n2)" by simp
  moreover from n1 n2 have
    "chained (nextStartTimeRef s) (n1 @ n2) (nextStartTimeRef (run (e # evs) s))"
    by (simp add: chained_append)
  moreover from n2 have "cursor_ok (run (e # evs) s)" by simp
  ultimately show ?case by blast
qed

lemma frames_of_reactions:
  "(case r of SendInput f \<Rightarrow> [(v, f)] | CloseSession \<Rightarrow> []) = [] \<longleftrightarrow> \<not> is_frame r"
  by (cases r) simp_all

lemma tick_closed_form:
  "tick t s =
     (if (\<exists>due\<in>set (timers s). due \<le> t) \<and> activeSourcesRef s = []
      then s\<lparr>timers := filter (\<lambda>due. \<not> due \<le> t) (timers s), isSpeaking := False\<rparr>
      else s\<lparr>timers := filter (\<lambda>due. \<not> due \<le> t) (timers s)\<rparr>)"
  by (auto simp add: tick_def fold_grace_check filter_empty_conv)

lemma cleanup_capture_inv:
  "(\<forall>q\<in>set (pending s). fst q < nextId s) \<Longrightarrow> capture_inv (cleanup s)"
  by (simp add: capture_inv_def cleanup_def)

lemma capture_inv_pending: "capture_inv s \<Longrightarrow> \<forall>q\<in>set (pending s). fst q < nextId s"
  by (simp add: capture_inv_def)

lemma teardown_capture_inv:
  assumes "capture_inv s" and "pending t = pending s" and "nextId s \<le> nextId t"
  shows "capture_inv (cleanup t)"
  using assms capture_inv_pending [OF assms(1)] by (intro cleanup_capture_inv) fastforce

lemma connect_capture_inv:
  "capture_inv s \<Longrightarrow> capture_inv (connect (isConnected s) (isConnecting s) fault s)"
proof (cases "isConnected s \<or> isConnecting s")
  case True
  assume "capture_inv s"
  with True show ?thesis by (simp add: connect_def)
next
  case False
  assume inv: "capture_inv s"
  show ?thesis
  proof (cases fault)
    case None
    with False inv show ?thesis
      by (fastforce simp add: connect_def capture_inv_def Let_def)
  next
    case (Some a)
    obtain k msg where a: "a = (k, msg)" by (cases a)
    have "capture_inv (cleanup t)" if "pending t = pending s" "nextId s \<le> nextId t" for t
      using that capture_inv_pending [OF inv] by (intro cleanup_capture_inv) fastforce
    with False Some a show ?thesis
      by (cases k) (simp_all add: connect_def connect_failed_def log_line_def Let_def)
  qed
qed

lemma session_resolved_capture_inv:
  "capture_inv s \<Longrightarrow> capture_inv (session_resolved v s)"
  by (auto simp add: capture_inv_def session_resolved_def resolve_def fold_run_reaction
        split: option.splits)

lemma onopen_capture_inv: "capture_inv s \<Longrightarrow> capture_inv (onopen outcome s)"
proof -
  assume inv: "capture_inv s"
  have fail: "capture_inv (cleanup t)" if "pending t = pending s" "nextId s \<le> nextId t" for t
    using that capture_inv_pending [OF inv] by (intro cleanup_capture_inv) fastforce
  show ?thesis
  proof (cases outcome)
    case Granted
    with inv show ?thesis
      by (fastforce simp add: onopen_def capture_inv_def log_line_def Let_def)
  next
    case Denied
    with fail show ?thesis
      by (simp add: onopen_def capture_failed_def log_line_def Let_def)
  next
    case GraphFailed
    with fail show ?thesis
      by (simp add: onopen_def capture_failed_def log_line_def Let_def)
  qed
qed

lemma onaudioprocess_capture_inv: "capture_inv s \<Longrightarrow> capture_inv (onaudioprocess f s)"
  by (auto simp add: capture_inv_def onaudioprocess_def promise_then_def
        split: option.splits)

lemma onmessage_capture_inv: "capture_inv s \<Longrightarrow> capture_inv (onmessage m env s)"
  by (auto simp add: capture_inv_def onmessage_def play_chunk_def resync_def schedule_def
        interrupt_def log_line_def Let_def split: option.splits)

lemma disconnect_capture_inv: "capture_inv s \<Longrightarrow> capture_inv (disconnect s)"
proof -
  assume inv: "capture_inv s"
  show ?thesis
  proof (cases "sessionPromiseRef s")
    case None
    with capture_inv_pending [OF inv] show ?thesis
      by (simp add: disconnect_def cleanup_capture_inv)
  next
    case (Some p)
    show ?thesis
    proof (cases "map_of (resolved s) p")
      case None
      from inv \<open>sessionPromiseRef s = Some p\<close> have "p < nextId s"
        by (simp add: capture_inv_def)
      with capture_inv_pending [OF inv]
      have "capture_inv (cleanup (s\<lparr>pending := pending s @ [(p, CloseSession)]\<rparr>))"
        by (intro cleanup_capture_inv) auto
      with None \<open>sessionPromiseRef s = Some p\<close> show ?thesis
        by (simp add: disconnect_def promise_then_def)
    next
      case (Some v)
      with \<open>sessionPromiseRef s = Some p\<close> capture_inv_pending [OF inv] show ?thesis
        by (simp add: disconnect_def promise_then_def cleanup_capture_inv)
    qed
  qed
qed

lemma step_capture_inv: "capture_inv s \<Longrightarrow> capture_inv (step e s)"
proof (cases e)
  case (Ended t src)
  assume "capture_inv s"
  with Ended show ?thesis by (simp add: capture_inv_def onended_def)
next
  case (Tick t)
  assume "capture_inv s"
  with Tick show ?thesis by (simp add: capture_inv_def tick_closed_form)
next
  case (SessionRejected msg)
  assume "capture_inv s"
  then have "capture_inv (session_rejected msg s)"
    unfolding session_rejected_def
    by (rule teardown_capture_inv) (simp_all add: log_line_def)
  with SessionRejected show ?thesis by simp
next
  case OnClose
  assume "capture_inv s"
  then have "capture_inv (onclose s)"
    unfolding onclose_def by (rule teardown_capture_inv) (simp_all add: log_line_def)
  with OnClose show ?thesis by simp
next
  case OnError
  assume "capture_inv s"
  then have "capture_inv (onerror s)"
    unfolding onerror_def by (rule teardown_capture_inv) (simp_all add: log_line_def)
  with OnError show ?thesis by simp
next
  case Unmount
  assume "capture_inv s"
  then have "capture_inv (cleanup s)" by (rule teardown_capture_inv) simp_all
  with Unmount show ?thesis by simp
qed (simp_all add: connect_capture_inv session_resolved_capture_inv onopen_capture_inv
       onaudioprocess_capture_inv onmessage_capture_inv disconnect_capture_inv)

lemma run_capture_inv: "capture_inv s \<Longrightarrow> capture_inv (run evs s)"
  by (induction evs arbitrary: s) (simp_all add: step_capture_inv)

lemma init_capture_inv: "capture_inv init"
  by (simp add: capture_inv_def init_def)

lemma frames_sent_only_when_open:
  assumes "capture_inv s" and "sentFrames (step e s) \<noteq> sentFrames s"
  shows "isConnected s \<and> \<not> isConnecting s"
proof -
  have "isConnected s"
  proof (cases e)
    case (AudioProcess f)
    with assms show ?thesis
      by (auto simp add: capture_inv_def onaudioprocess_def promise_then_def
            split: option.splits if_splits)
  next
    case (SessionResolved v)
    with assms(2) obtain p where p: "sessionResolveRef s = Some p"
      and "map_of (resolved s) p = None"
      and "\<exists>q\<in>set (pending s). fst q = p \<and> is_frame (snd q)"
      by (fastforce simp add: session_resolved_def resolve_def fold_run_reaction
            frames_of_reactions split: option.splits)
    then obtain q where "q \<in> set (pending s)" "fst q = p" "is_frame (snd q)" by auto
    with assms(1) p show ?thesis by (auto simp add: capture_inv_def)
  next
    case (Connect fault)
    with assms(2) show ?thesis
      by (cases fault)
        (auto simp add: connect_def connect_failed_def cleanup_def log_line_def Let_def
           split: if_splits connect_fault.splits)
  next
    case (OnOpen outcome)
    with assms(2) show ?thesis
      by (cases outcome)
        (auto simp add: onopen_def capture_failed_def cleanup_def log_line_def Let_def)
  next
    case (OnMessage m env)
    with assms(2) show ?thesis
      by (auto simp add: onmessage_def play_chunk_def resync_def schedule_def interrupt_def
            log_line_def Let_def split: if_splits option.splits)
  next
    case Disconnect
    with assms(2) show ?thesis
      by (auto simp add: disconnect_def promise_then_def cleanup_def split: option.splits)
  qed (use assms(2) in \<open>auto simp add: session_rejected_def onended_def tick_closed_form
         onclose_def onerror_def cleanup_def log_line_def split: if_splits\<close>)
  with assms(1) show ?thesis by (simp add: capture_inv_def)
qed

lemma step_never_opened:
  assumes "never_opened s" and "\<not> is_onopen e"
  shows "never_opened (step e s)"
proof (cases e)
  case (Connect fault)
  with assms show ?thesis
    by (cases fault)
      (auto simp add: never_opened_def connect_def connect_failed_def cleanup_def log_line_def
         Let_def split: connect_fault.splits)
next
  case (SessionResolved v)
  with assms show ?thesis
    by (auto simp add: never_opened_def session_resolved_def resolve_def fold_run_reaction
          frames_of_reactions split: option.splits)
next
  case (AudioProcess f)
  with assms show ?thesis by (simp add: never_opened_def onaudioprocess_def)
next
  case (OnMessage m env)
  with assms show ?thesis
    by (auto simp add: never_opened_def onmessage_def play_chunk_def resync_def schedule_def
          interrupt_def log_line_def Let_def split: option.splits)
next
  case Disconnect
  with assms show ?thesis
    by (auto simp add: never_opened_def disconnect_def promise_then_def cleanup_def
          split: option.splits)
qed (use assms in \<open>auto simp add: never_opened_def session_rejected_def onended_def
       tick_closed_form onclose_def onerror_def cleanup_def log_line_def\<close>)

lemma run_never_opened:
  "never_opened s \<Longrightarrow> list_all (\<lambda>e. \<not> is_onopen e) evs \<Longrightarrow> never_opened (run evs s)"
  by (induction evs arbitrary: s) (simp_all add: step_never_opened)

lemma step_timers: "\<not> is_tick e \<Longrightarrow> timers (step e s) = timers s @ timers_set e"
proof (cases e)
  case (Connect fault)
  then show ?thesis
    by (cases fault)
      (auto simp add: connect_def connect_failed_def cleanup_def log_line_def Let_def
         split: connect_fault.splits)
next
  case (SessionResolved v)
  then show ?thesis
    by (simp add: session_resolved_def resolve_def fold_run_reaction split: option.splits)
next
  case (OnOpen outcome)
  then show ?thesis
    by (cases outcome)
      (simp_all add: onopen_def capture_failed_def cleanup_def log_line_def Let_def)
next
  case (AudioProcess f)
  then show ?thesis
    by (simp add: onaudioprocess_def promise_then_def split: option.splits)
next
  case (OnMessage m env)
  then show ?thesis
    by (simp add: onmessage_def play_chunk_def resync_def schedule_def interrupt_def
          log_line_def Let_def split: option.splits)
next
  case Disconnect
  then show ?thesis
    by (simp add: disconnect_def promise_then_def cleanup_def split: option.splits)
qed (simp_all add: session_rejected_def onended_def onclose_def onerror_def cleanup_def
       log_line_def)

lemma tick_timers: "timers (tick t s) = filter (\<lambda>due. \<not> due \<le> t) (timers s)"
  by (simp add: tick_closed_form)

lemma step_keeps_timer:
  assumes "due \<in> set (timers s)" and "not_yet due e"
  shows "due \<in> set (timers (step e s))"
proof (cases "is_tick e")
  case True
  then obtain t where "e = Tick t" by (cases e) simp_all
  with assms show ?thesis by (simp add: tick_timers)
next
  case False
  with assms(1) show ?thesis by (simp add: step_timers)
qed

lemma run_keeps_timer:
  "due \<in> set (timers s) \<Longrightarrow> list_all (not_yet due) evs \<Longrightarrow> due \<in> set (timers (run evs s))"
  by (induction evs arbitrary: s) (simp_all add: step_keeps_timer)

text \<open>
  C1. For every sequence of inbound audio chunks arriving at any times, in any interleaving
  with capture frames, ended sources, timers and the settling of the connection promise, the
  segments started do not overlap: each starts at or after the end of every segment started
  before it, so no two of their intervals [start, start + duration) intersect, and the
  cursor never moves back. A chunk that decodes is started at the value the cursor has just
  before the commit, which under one handler is the larger of the old cursor and the device
  time, and the commit then advances the cursor by the decoded duration. All sums are the
  sums of doubles the code computes.
\<close>

theorem playback_never_overlaps:
  "(list_all playback_event evs \<and> cursor_ok s \<longrightarrow>
      no_overlap (scheduled_since s (run evs s)) \<and>
      sorted_wrt (\<lambda>x y. seg_end x \<le> seg_start y) (scheduled_since s (run evs s)) \<and>
      nextStartTimeRef s \<le> nextStartTimeRef (run evs s)) \<and>
   (has_audio m \<and> \<not> (ctx_suspended env \<and> resume_rejects env) \<and> decoded env = Some d \<longrightarrow>
      scheduled_since s0 (onmessage m env s0) =
        [\<lparr>seg_id = nextId s0, seg_start = max (nextStartTimeRef s0) (currentTime env),
          seg_duration = d\<rparr>] \<and>
      (\<not> interrupted m \<longrightarrow>
         nextStartTimeRef (onmessage m env s0) =
           number_add (max (nextStartTimeRef s0) (currentTime env)) d)) \<and>
   scheduled_since s1 (schedule d1 s1) =
     [\<lparr>seg_id = nextId s1, seg_start = nextStartTimeRef s1, seg_duration = d1\<rparr>] \<and>
   nextStartTimeRef (schedule d1 s1) = number_add (nextStartTimeRef s1) d1"
proof (intro conjI impI)
  assume "list_all playback_event evs \<and> cursor_ok s"
  then have evs: "list_all playback_event evs" and ok: "cursor_ok s" by simp_all
  from run_chained [OF evs ok] obtain new where
    new: "started (run evs s) = started s @ new"
         "chained (nextStartTimeRef s) new (nextStartTimeRef (run evs s))" by blast
  then have since: "scheduled_since s (run evs s) = new" by (simp add: scheduled_since_def)
  from new(2) show "sorted_wrt (\<lambda>x y. seg_end x \<le> seg_start y) (scheduled_since s (run evs s))"
    unfolding since by (rule chained_sorted)
  then show "no_overlap (scheduled_since s (run evs s))" by (rule sorted_no_overlap)
  from new(2) show "nextStartTimeRef s \<le> nextStartTimeRef (run evs s)" by (rule chained_le)
next
  assume h: "has_audio m \<and> \<not> (ctx_suspended env \<and> resume_rejects env) \<and> decoded env = Some d"
  then show "scheduled_since s0 (onmessage m env s0) =
        [\<lparr>seg_id = nextId s0, seg_start = max (nextStartTimeRef s0) (currentTime env),
          seg_duration = d\<rparr>]"
    by (auto simp: scheduled_since_def onmessage_def play_chunk_def resync_def schedule_def
          interrupt_def log_line_def Let_def)
  assume "\<not> interrupted m"
  with h show "nextStartTimeRef (onmessage m env s0) =
           number_add (max (nextStartTimeRef s0) (currentTime env)) d"
    by (auto simp: onmessage_def play_chunk_def resync_def schedule_def)
next
  show "scheduled_since s1 (schedule d1 s1) =
     [\<lparr>seg_id = nextId s1, seg_start = nextStartTimeRef s1, seg_duration = d1\<rparr>]"
    by (simp add: scheduled_since_def schedule_def)
  show "nextStartTimeRef (schedule d1 s1) = number_add (nextStartTimeRef s1) d1"
    by (simp add: schedule_def)
qed

theorem playback_never_overlaps_witness:
  "list_all playback_event sample_playback \<and> cursor_ok opened \<and>
   has_audio \<lparr>audio = Some ''pcm'', interrupted = False\<rparr> \<and>
   decoded \<lparr>ctx_suspended = False, resume_rejects = False, currentTime = 3, decoded = Some (1/4)\<rparr>
     = Some (1/4) \<and>
   no_overlap (scheduled_since opened (run sample_playback opened)) \<and>
   map seg_start (scheduled_since opened (run sample_playback opened))
     = [3602879701896397 / 36028797018963968, 7205759403792793 / 9007199254740992, 12] \<and>
   map seg_end (scheduled_since opened (run sample_playback opened))
     = [7205759403792793 / 9007199254740992, 2026619832316723 / 2251799813685248, 49/4] \<and>
   nextStartTimeRef (run sample_playback opened) = 49/4 \<and>
   scheduled_since opened (onmessage \<lparr>audio = Some ''pcm'', interrupted = False\<rparr>
     \<lparr>ctx_suspended = False, resume_rejects = False, currentTime = 3, decoded = Some (1/4)\<rparr>
     opened) = [\<lparr>seg_id = 8, seg_start = 3, seg_duration = 1/4\<rparr>] \<and>
   nextStartTimeRef (onmessage \<lparr>audio = Some ''pcm'', interrupted = False\<rparr>
     \<lparr>ctx_suspended = False, resume_rejects = False, currentTime = 3, decoded = Some (1/4)\<rparr>
     opened) = 13/4"
proof -
  have evs: "list_all playback_event sample_playback" by code_simp
  have ok: "cursor_ok opened" by code_simp
  have starts: "map seg_start (scheduled_since opened (run sample_playback opened))
     = [3602879701896397 / 36028797018963968, 7205759403792793 / 9007199254740992, 12]"
    by code_simp
  have ends: "map seg_end (scheduled_since opened (run sample_playback opened))
     = [7205759403792793 / 9007199254740992, 2026619832316723 / 2251799813685248, 49/4]"
    by code_simp
  have cursor: "nextStartTimeRef (run sample_playback opened) = 49/4" by code_simp
  have op: "nextStartTimeRef opened = 0" "nextId opened = 8"
    by (simp_all add: opened_def init_def connect_def session_resolved_def resolve_def
          onopen_def log_line_def)
  from playback_never_overlaps [of sample_playback opened
     "\<lparr>audio = Some ''pcm'', interrupted = False\<rparr>"
     "\<lparr>ctx_suspended = False, resume_rejects = False, currentTime = 3, decoded = Some (1/4)\<rparr>"
     "1/4" opened opened 0] evs ok starts ends cursor
  show ?thesis by (simp add: has_audio_def op sum_3_quarter)
qed

text \<open>
  C2. When a message carrying the interruption flag is processed, \<open>stop\<close> is called on every
  source that was in the live set, the set is empty afterwards, the cursor is zero and
  \<open>isSpeaking\<close> is false in the state the handler returns, whatever the number of live
  sources; no timer is set, so the 200 ms grace delay plays no part.
\<close>

theorem interruption_is_total:
  "interrupted m \<Longrightarrow>
     activeSourcesRef (onmessage m env s) = [] \<and>
     nextStartTimeRef (onmessage m env s) = 0 \<and>
     \<not> isSpeaking (onmessage m env s) \<and>
     set (activeSourcesRef s) \<subseteq> set (stopCalls (onmessage m env s)) \<and>
     timers (onmessage m env s) = timers s"
  by (auto simp add: onmessage_def play_chunk_def resync_def schedule_def interrupt_def
        log_line_def set_add_def Let_def split: option.splits)

theorem interruption_is_total_witness:
  "interrupted interruption \<and>
   activeSourcesRef two_live = [8, 9] \<and> isSpeaking two_live \<and>
   activeSourcesRef (onmessage interruption (running_at 10) two_live) = [] \<and>
   nextStartTimeRef (onmessage interruption (running_at 10) two_live) = 0 \<and>
   \<not> isSpeaking (onmessage interruption (running_at 10) two_live) \<and>
   {8, 9} \<subseteq> set (stopCalls (onmessage interruption (running_at 10) two_live))"
  using interruption_is_total [of interruption "running_at 10" two_live]
  by (simp add: interruption_def two_live_def opened_def chunk_event_def init_def connect_def
        session_resolved_def resolve_def onopen_def onmessage_def play_chunk_def resync_def
        schedule_def interrupt_def log_line_def has_audio_def set_add_def)

text \<open>
  C3. Scenario B: with the cursor at 10.0, three chunks of 0.5 s, 0.3 s and 0.2 s that arrive
  back to back (each no later than the cursor) are started at 10.0, 10.5 and 10.8, and the
  cursor is 11.0 after the third. The numbers are the doubles the literals denote: 0.3 is
  \<open>double_round (3/10)\<close>, 10.8 is \<open>double_round (54/5)\<close>.
\<close>

theorem scenario_B:
  assumes "nextStartTimeRef s = 10" and "b \<noteq> []"
    and "t1 \<le> 10" and "t2 \<le> 21/2" and "t3 \<le> double_round (54/5)"
  shows "map seg_start (scheduled_since s
           (run [chunk_event b t1 (1/2), chunk_event b t2 (double_round (3/10)),
                 chunk_event b t3 (double_round (1/5))] s))
         = [10, 21/2, double_round (54/5)] \<and>
       nextStartTimeRef
           (run [chunk_event b t1 (1/2), chunk_event b t2 (double_round (3/10)),
                 chunk_event b t3 (double_round (1/5))] s)
         = 11"
proof -
  have chunk: "step (chunk_event b t d) u = schedule d (resync t u)" for t d u
    using assms(2) by (simp add: chunk_event_def onmessage_def play_chunk_def has_audio_def)
  have start: "started (schedule d (resync t u)) = started u
      @ [\<lparr>seg_id = nextId u, seg_start = max (nextStartTimeRef u) t, seg_duration = d\<rparr>]"
    and cursor: "nextStartTimeRef (schedule d (resync t u))
      = number_add (max (nextStartTimeRef u) t) d" for t d u
    by (simp_all add: schedule_def resync_def)
  define u1 where "u1 = schedule (1/2) (resync t1 s)"
  define u2 where "u2 = schedule (double_round (3/10)) (resync t2 u1)"
  define u3 where "u3 = schedule (double_round (1/5)) (resync t3 u2)"
  have m1: "max (nextStartTimeRef s) t1 = 10"
    using assms(1,3) by (simp add: max_absorb1)
  have c1: "nextStartTimeRef u1 = 21/2"
    unfolding u1_def cursor m1 by (rule sum_10_half)
  have m2: "max (nextStartTimeRef u1) t2 = 21/2"
    unfolding c1 using assms(4) by (rule max_absorb1)
  have c2: "nextStartTimeRef u2 = double_round (54/5)"
    unfolding u2_def cursor m2 by (rule sum_scenario_2)
  have m3: "max (nextStartTimeRef u2) t3 = double_round (54/5)"
    unfolding c2 using assms(5) by (rule max_absorb1)
  have c3: "nextStartTimeRef u3 = 11"
    unfolding u3_def cursor m3 by (rule sum_scenario_3)
  have "started u3 = started s
      @ [\<lparr>seg_id = nextId s, seg_start = 10, seg_duration = 1/2\<rparr>,
         \<lparr>seg_id = nextId u1, seg_start = 21/2, seg_duration = double_round (3/10)\<rparr>,
         \<lparr>seg_id = nextId u2, seg_start = double_round (54/5),
           seg_duration = double_round (1/5)\<rparr>]"
    unfolding u3_def start m3 unfolding u2_def start m2 unfolding u1_def start m1 by simp
  then have "map seg_start (scheduled_since s u3) = [10, 21/2, double_round (54/5)]"
    by (simp add: scheduled_since_def)
  moreover have "run [chunk_event b t1 (1/2), chunk_event b t2 (double_round (3/10)),
                 chunk_event b t3 (double_round (1/5))] s = u3"
    by (simp add: chunk u1_def u2_def u3_def)
  ultimately show ?thesis using c3 by simp
qed

theorem scenario_B_witness:
  "nextStartTimeRef (resync 10 opened) = 10 \<and> ''pcm'' \<noteq> [] \<and>
   (10::rat) \<le> 10 \<and> (10::rat) \<le> 21/2 \<and> (10::rat) \<le> double_round (54/5) \<and>
   double_round (3/10) = 5404319552844595 / 18014398509481984 \<and>
   double_round (54/5) = 3039929748475085 / 281474976710656 \<and>
   map seg_start (scheduled_since (resync 10 opened)
     (run [chunk_event ''pcm'' 10 (1/2), chunk_event ''pcm'' 10 (double_round (3/10)),
           chunk_event ''pcm'' 10 (double_round (1/5))] (resync 10 opened)))
     = [10, 21/2, double_round (54/5)] \<and>
   nextStartTimeRef
     (run [chunk_event ''pcm'' 10 (1/2), chunk_event ''pcm'' 10 (double_round (3/10)),
           chunk_event ''pcm'' 10 (double_round (1/5))] (resync 10 opened)) = 11"
proof -
  have a: "nextStartTimeRef (resync 10 opened) = 10"
    by (simp add: resync_def opened_def init_def connect_def session_resolved_def resolve_def
          onopen_def log_line_def)
  have b: "(10::rat) \<le> double_round (54/5)" by code_simp
  have c: "double_round (3/10) = 5404319552844595 / 18014398509481984" by code_simp
  have d: "double_round (54/5) = 3039929748475085 / 281474976710656" by code_simp
  from scenario_B [of "resync 10 opened" "''pcm''" 10 10 10] a b
  have "map seg_start (scheduled_since (resync 10 opened)
     (run [chunk_event ''pcm'' 10 (1/2), chunk_event ''pcm'' 10 (double_round (3/10)),
           chunk_event ''pcm'' 10 (double_round (1/5))] (resync 10 opened)))
     = [10, 21/2, double_round (54/5)] \<and>
   nextStartTimeRef
     (run [chunk_event ''pcm'' 10 (1/2), chunk_event ''pcm'' 10 (double_round (3/10)),
           chunk_event ''pcm'' 10 (double_round (1/5))] (resync 10 opened)) = 11"
    by simp
  with a b c d show ?thesis by simp
qed

text \<open>
  C4. No captured frame reaches the transport before the session is open. In every state the
  hook reaches from its initial state, a step that sends a frame starts from a state in
  which the session is open (connected and not connecting). As long as \<open>onopen\<close> has not
  run, no frame has been sent, no microphone stream and no processor are held, and a capture
  callback changes nothing.
\<close>

theorem capture_is_gated:
  "(sentFrames (step e (run evs init)) \<noteq> sentFrames (run evs init) \<longrightarrow>
      isConnected (run evs init) \<and> \<not> isConnecting (run evs init)) \<and>
   (list_all (\<lambda>e. \<not> is_onopen e) evs \<longrightarrow>
      sentFrames (run evs init) = [] \<and> streamRef (run evs init) = None \<and>
      scriptProcessorRef (run evs init) = None \<and>
      (\<forall>f. step (AudioProcess f) (run evs init) = run evs init))"
proof (intro conjI impI)
  assume "sentFrames (step e (run evs init)) \<noteq> sentFrames (run evs init)"
  with run_capture_inv [OF init_capture_inv, of evs]
  have "isConnected (run evs init) \<and> \<not> isConnecting (run evs init)"
    by (rule frames_sent_only_when_open)
  then show "isConnected (run evs init)" and "\<not> isConnecting (run evs init)" by simp_all
next
  assume "list_all (\<lambda>e. \<not> is_onopen e) evs"
  moreover have "never_opened init" by (simp add: never_opened_def init_def)
  ultimately have n: "never_opened (run evs init)" by (intro run_never_opened)
  then show "sentFrames (run evs init) = []" and "streamRef (run evs init) = None"
    and "scriptProcessorRef (run evs init) = None"
    by (simp_all add: never_opened_def)
  then show "\<forall>f. step (AudioProcess f) (run evs init) = run evs init"
    by (simp add: onaudioprocess_def)
qed

theorem capture_is_gated_witness:
  "sentFrames (step (AudioProcess 1) (run [Connect None, SessionResolved 7, OnOpen Granted] init))
     \<noteq> sentFrames (run [Connect None, SessionResolved 7, OnOpen Granted] init) \<and>
   isConnected (run [Connect None, SessionResolved 7, OnOpen Granted] init) \<and>
   \<not> isConnecting (run [Connect None, SessionResolved 7, OnOpen Granted] init) \<and>
   list_all (\<lambda>e. \<not> is_onopen e) [Connect None, SessionResolved 7, AudioProcess 1] \<and>
   isConnecting (run [Connect None, SessionResolved 7, AudioProcess 1] init) \<and>
   sentFrames (run [Connect None, SessionResolved 7, AudioProcess 1] init) = [] \<and>
   scriptProcessorRef (run [Connect None, SessionResolved 7, AudioProcess 1] init) = None"
  using capture_is_gated [of "AudioProcess 1" "[Connect None, SessionResolved 7, OnOpen Granted]"]
    capture_is_gated [of "AudioProcess 1" "[Connect None, SessionResolved 7, AudioProcess 1]"]
  by (simp add: init_def connect_def session_resolved_def resolve_def onopen_def log_line_def
        onaudioprocess_def promise_then_def)

text \<open>
  C5. Teardown is idempotent. \<open>cleanup\<close> and \<open>disconnect\<close> have no failing branch and
  always end in the idle state. Running either a second time changes nothing but the console,
  which gets the line \<open>cleanup\<close> prints: no further stop, release or close call is made and
  nothing more is queued. On a state that is already idle, both do nothing but print that
  line.
\<close>

theorem teardown_is_idempotent:
  "idle (cleanup s) \<and> idle (disconnect s) \<and>
   cleanup (cleanup s) = log_line cleanup_line (cleanup s) \<and>
   disconnect (disconnect s) = log_line cleanup_line (disconnect s) \<and>
   released (cleanup (cleanup s)) = released (cleanup s) \<and>
   stopCalls (cleanup (cleanup s)) = stopCalls (cleanup s) \<and>
   released (disconnect (disconnect s)) = released (disconnect s) \<and>
   stopCalls (disconnect (disconnect s)) = stopCalls (disconnect s) \<and>
   closedSessions (disconnect (disconnect s)) = closedSessions (disconnect s) \<and>
   pending (disconnect (disconnect s)) = pending (disconnect s) \<and>
   (idle s \<longrightarrow> cleanup s = log_line cleanup_line s \<and> disconnect s = log_line cleanup_line s)"
  by (simp add: idle_def cleanup_def disconnect_def log_line_def cleanup_line_def release_def
        promise_then_def split: option.splits reaction.splits)

theorem teardown_is_idempotent_witness:
  "idle init \<and> cleanup init = log_line cleanup_line init \<and>
   disconnect init = log_line cleanup_line init \<and>
   \<not> idle two_live \<and>
   released (disconnect two_live) = [Processor 7, InputSource 6, Stream 5, Context 0, Context 1] \<and>
   stopCalls (disconnect two_live) = [8, 9] \<and> closedSessions (disconnect two_live) = [7] \<and>
   disconnect (disconnect two_live) = log_line cleanup_line (disconnect two_live)"
  using teardown_is_idempotent [of init] teardown_is_idempotent [of two_live]
  by (simp add: idle_def init_def two_live_def opened_def chunk_event_def connect_def
        session_resolved_def resolve_def onopen_def onmessage_def play_chunk_def resync_def
        schedule_def log_line_def has_audio_def set_add_def cleanup_def disconnect_def
        release_def promise_then_def)

text \<open>
  C6. The guard of \<open>connect\<close> tests the flags its callback captured, not the state cells.
  Called twice through the same callback, the one built while the hook was idle, the second
  call passes the guard although the first has set \<open>isConnecting\<close>: it builds audio
  contexts 5 and 6 over contexts 0 and 1, which are left open and without a reference,
  replaces the wrapper promise 4 by 9 and calls \<open>ai.live.connect\<close> a second time. So a
  second \<open>connect\<close> while the session is connecting is not a no-op.
\<close>

theorem second_connect_opens_second_session:
  "isConnecting (connect False False None init) \<and>
   liveConnects (connect False False None init) = 1 \<and>
   inputAudioContextRef (connect False False None init) = Some 0 \<and>
   sessionPromiseRef (connect False False None init) = Some 4 \<and>
   connect False False None (connect False False None init) \<noteq> connect False False None init \<and>
   liveConnects (connect False False None (connect False False None init)) = 2 \<and>
   inputAudioContextRef (connect False False None (connect False False None init)) = Some 5 \<and>
   outputAudioContextRef (connect False False None (connect False False None init)) = Some 6 \<and>
   sessionPromiseRef (connect False False None (connect False False None init)) = Some 9 \<and>
   nextId (connect False False None (connect False False None init)) = 10 \<and>
   released (connect False False None (connect False False None init)) = []"
  by (simp add: connect_def init_def)

text \<open>
  The guard does hold back a call through a callback that captured a set flag, as the
  callback of every render after the flags changed has.
\<close>

lemma connect_guard:
  "seenConnected \<or> seenConnecting \<Longrightarrow> connect seenConnected seenConnecting fault s = s"
  by (simp add: connect_def)

lemma rendered_connect_is_noop:
  "isConnected s \<or> isConnecting s \<Longrightarrow> step (Connect fault) s = s"
  by (simp add: connect_def)

text \<open>
  C7. When the microphone is refused right after the transport has opened, the error
  message is set, \<open>cleanup\<close> runs, the hook is idle and a later \<open>connect\<close> starts a new
  attempt. The transport, however, is left open: \<open>cleanup\<close> makes no \<open>close\<close> call and
  queues none, where \<open>disconnect\<close> from the open session closes session 7.
\<close>

theorem capture_failure_leaves_transport_open:
  "closedSessions (onopen Denied s) = closedSessions s \<and>
   pending (onopen Denied s) = pending s \<and>
   error (onopen Denied s) = Some ''Microphone access failed.'' \<and>
   idle (onopen Denied s) \<and>
   isConnecting (step (Connect None) (onopen Denied s)) \<and>
   error (step (Connect None) (onopen Denied s)) = None \<and>
   resolved (run [Connect None, SessionResolved 7, OnOpen Denied] init) = [(4, 7)] \<and>
   closedSessions (run [Connect None, SessionResolved 7, OnOpen Denied] init) = [] \<and>
   closedSessions (run [Connect None, SessionResolved 7, OnOpen Granted, Disconnect] init) = [7]"
  by (simp add: idle_def onopen_def capture_failed_def cleanup_def log_line_def connect_def
        init_def session_resolved_def resolve_def disconnect_def promise_then_def release_def
        Let_def)

text \<open>
  C8. A chunk whose decoding fails is dropped and logged and nothing else happens to the
  session: no segment is started, the live set and the stop calls are as before, the
  connection flags, \<open>isSpeaking\<close> and the error are unchanged, the cursor is not moved back,
  and a later chunk that decodes is started as usual.
\<close>

theorem decode_failure_is_local:
  assumes "has_audio m" and "\<not> interrupted m" and "decoded env = None"
  shows "started (onmessage m env s) = started s \<and>
     activeSourcesRef (onmessage m env s) = activeSourcesRef s \<and>
     stopCalls (onmessage m env s) = stopCalls s \<and>
     isConnected (onmessage m env s) = isConnected s \<and>
     isConnecting (onmessage m env s) = isConnecting s \<and>
     isSpeaking (onmessage m env s) = isSpeaking s \<and>
     error (onmessage m env s) = error s \<and>
     nextStartTimeRef s \<le> nextStartTimeRef (onmessage m env s) \<and>
     console (onmessage m env s) = console s @ [''Audio Decode Error''] \<and>
     (\<forall>m2 env2 d. has_audio m2 \<and> \<not> interrupted m2 \<and>
          \<not> (ctx_suspended env2 \<and> resume_rejects env2) \<and> decoded env2 = Some d \<longrightarrow>
        started (onmessage m2 env2 (onmessage m env s)) = started s @
          [\<lparr>seg_id = nextId s,
            seg_start = max (nextStartTimeRef (onmessage m env s)) (currentTime env2),
            seg_duration = d\<rparr>])"
  using assms
  by (auto simp add: onmessage_def play_chunk_def resync_def schedule_def log_line_def Let_def)

theorem decode_failure_is_local_witness:
  "has_audio bad_chunk \<and> \<not> interrupted bad_chunk \<and> decoded (decode_fails_at 10) = None \<and>
   isConnected two_live \<and> isSpeaking two_live \<and>
   started (onmessage bad_chunk (decode_fails_at 10) two_live) = started two_live \<and>
   activeSourcesRef (onmessage bad_chunk (decode_fails_at 10) two_live) = [8, 9] \<and>
   isConnected (onmessage bad_chunk (decode_fails_at 10) two_live) \<and>
   isSpeaking (onmessage bad_chunk (decode_fails_at 10) two_live) \<and>
   nextStartTimeRef two_live = 43/4 \<and>
   nextStartTimeRef (onmessage bad_chunk (decode_fails_at 10) two_live) = 43/4"
proof -
  have h: "has_audio bad_chunk" "\<not> interrupted bad_chunk" "decoded (decode_fails_at 10) = None"
    by (simp_all add: bad_chunk_def decode_fails_at_def has_audio_def)
  have live: "activeSourcesRef two_live = [8, 9]" "isConnected two_live" "isSpeaking two_live"
    "nextStartTimeRef two_live = 43/4"
    by code_simp+
  have after: "nextStartTimeRef (onmessage bad_chunk (decode_fails_at 10) two_live) = 43/4"
    by code_simp
  from decode_failure_is_local [OF h, of two_live] h live after show ?thesis by simp
qed

text \<open>
  C9, as the code has it. When a source ends it is removed from the live set at once,
  \<open>isSpeaking\<close> is left as it is, and a timer is set for 200 ms later. No handler removes a
  timer: every event other than the clock leaves the pending timers in place, adding the one
  an ended source sets, so a timer stays pending through any run of events until the clock
  reaches its due time, whatever joins the live set meanwhile. Until a timer is due, the
  clock changes nothing. When the timer runs, \<open>isSpeaking\<close> becomes false exactly if the
  live set is empty at that moment. So \<open>isSpeaking\<close> stays true when a chunk has joined the
  live set after the end and is still there when the timer runs.
\<close>

theorem grace_delay:
  "activeSourcesRef (onended t src s) = removeAll src (activeSourcesRef s) \<and>
   isSpeaking (onended t src s) = isSpeaking s \<and>
   timers (onended t src s) = timers s @ [t + 200] \<and>
   (\<not> is_tick e \<longrightarrow> timers (step e s) = timers s @ timers_set e) \<and>
   timers (tick t' s) = filter (\<lambda>due. \<not> due \<le> t') (timers s) \<and>
   (due \<in> set (timers s) \<and> list_all (not_yet due) evs \<longrightarrow> due \<in> set (timers (run evs s))) \<and>
   (t' < t + 200 \<longrightarrow> t + 200 \<in> set (timers (tick t' (onended t src s)))) \<and>
   ((\<forall>due\<in>set (timers s). t' < due) \<longrightarrow> tick t' s = s) \<and>
   ((\<exists>due\<in>set (timers s). due \<le> t') \<longrightarrow>
      isSpeaking (tick t' s) = (isSpeaking s \<and> activeSourcesRef s \<noteq> [])) \<and>
   (has_audio m \<and> \<not> interrupted m \<and> \<not> (ctx_suspended env \<and> resume_rejects env) \<and>
      decoded env = Some d \<longrightarrow>
      isSpeaking (tick t' (onmessage m env (onended t src s))))"
proof -
  have quiet: "tick t' s = s" if "\<forall>due\<in>set (timers s). t' < due"
  proof -
    from that have "filter (\<lambda>due. \<not> due \<le> t') (timers s) = timers s"
      by (auto simp: filter_id_conv)
    moreover from that have "\<not> (\<exists>due\<in>set (timers s). due \<le> t')" by auto
    ultimately show ?thesis by (simp add: tick_closed_form)
  qed
  have joined: "isSpeaking (tick t' (onmessage m env (onended t src s)))"
    if "has_audio m" "\<not> interrupted m" "\<not> (ctx_suspended env \<and> resume_rejects env)"
      "decoded env = Some d"
  proof -
    from that have "isSpeaking (onmessage m env (onended t src s))"
      and "activeSourcesRef (onmessage m env (onended t src s)) \<noteq> []"
      by (auto simp add: onmessage_def play_chunk_def resync_def schedule_def set_add_def
            Let_def)
    then show ?thesis by (simp add: tick_closed_form)
  qed
  have "activeSourcesRef (onended t src s) = removeAll src (activeSourcesRef s)"
    and "isSpeaking (onended t src s) = isSpeaking s"
    and "timers (onended t src s) = timers s @ [t + 200]"
    by (simp_all add: onended_def set_delete_def)
  moreover have "\<not> is_tick e \<longrightarrow> timers (step e s) = timers s @ timers_set e"
    by (simp add: step_timers)
  moreover have "timers (tick t' s) = filter (\<lambda>due. \<not> due \<le> t') (timers s)"
    by (rule tick_timers)
  moreover have "due \<in> set (timers s) \<and> list_all (not_yet due) evs
      \<longrightarrow> due \<in> set (timers (run evs s))"
    by (simp add: run_keeps_timer)
  moreover have "t' < t + 200 \<longrightarrow> t + 200 \<in> set (timers (tick t' (onended t src s)))"
    by (simp add: tick_closed_form onended_def)
  moreover have "(\<exists>due\<in>set (timers s). due \<le> t') \<longrightarrow>
      isSpeaking (tick t' s) = (isSpeaking s \<and> activeSourcesRef s \<noteq> [])"
    by (simp add: tick_closed_form)
  ultimately show ?thesis using quiet joined by blast
qed

theorem grace_delay_witness:
  "(1100::nat) < 1000 + 200 \<and>
   \<not> is_tick (chunk_event ''pcm'' (21/2) (1/2)) \<and>
   timers (onended 1000 8 (run [chunk_event ''pcm'' 10 (1/2)] opened)) = [1200] \<and>
   list_all (not_yet 1200) [chunk_event ''pcm'' (21/2) (1/2), Tick 1100, Ended 1150 9, Tick 1199] \<and>
   1200 \<in> set (timers (run [chunk_event ''pcm'' (21/2) (1/2), Tick 1100, Ended 1150 9, Tick 1199]
      (onended 1000 8 (run [chunk_event ''pcm'' 10 (1/2)] opened)))) \<and>
   timers (step (chunk_event ''pcm'' (21/2) (1/2))
      (onended 1000 8 (run [chunk_event ''pcm'' 10 (1/2)] opened))) = [1200] \<and>
   isSpeaking (tick 1100 (onended 1000 8 (run [chunk_event ''pcm'' 10 (1/2)] opened))) \<and>
   activeSourcesRef (onended 1000 8 (run [chunk_event ''pcm'' 10 (1/2)] opened)) = [] \<and>
   \<not> isSpeaking (tick 1200 (onended 1000 8 (run [chunk_event ''pcm'' 10 (1/2)] opened))) \<and>
   has_audio \<lparr>audio = Some ''pcm'', interrupted = False\<rparr> \<and>
   isSpeaking (tick 1200 (onmessage \<lparr>audio = Some ''pcm'', interrupted = False\<rparr>
     \<lparr>ctx_suspended = False, resume_rejects = False, currentTime = 21/2, decoded = Some (1/2)\<rparr>
     (onended 1000 8 (run [chunk_event ''pcm'' 10 (1/2)] opened))))"
proof -
  define s1 where "s1 = run [chunk_event ''pcm'' 10 (1/2)] opened"
  define joins where "joins = chunk_event ''pcm'' (21/2) (1/2)"
  define m where "m = \<lparr>audio = Some ''pcm'', interrupted = False\<rparr>"
  define env where "env =
    \<lparr>ctx_suspended = False, resume_rejects = False, currentTime = 21/2, decoded = Some (1/2 :: rat)\<rparr>"
  have s1: "activeSourcesRef s1 = [8]" "isSpeaking s1" "timers s1 = []"
    unfolding s1_def by code_simp+
  have nt: "\<not> is_tick joins" by (simp add: joins_def chunk_event_def)
  have ny: "list_all (not_yet 1200) [joins, Tick 1100, Ended 1150 9, Tick 1199]"
    by (simp add: joins_def chunk_event_def)
  have tm: "timers (onended 1000 8 s1) = [1200]"
    and act: "activeSourcesRef (onended 1000 8 s1) = []"
    and sp: "isSpeaking (onended 1000 8 s1)"
    by (simp_all add: onended_def set_delete_def s1)
  have h: "has_audio m" "\<not> interrupted m" "\<not> (ctx_suspended env \<and> resume_rejects env)"
    "decoded env = Some (1/2)"
    by (simp_all add: m_def env_def has_audio_def)
  note a = grace_delay [where t = 1000 and src = 8 and s = s1 and t' = 1200
      and m = m and env = env and d = "1/2" and e = joins and due = 1200
      and evs = "[joins, Tick 1100, Ended 1150 9, Tick 1199]"]
  note b = grace_delay [where t = 1000 and src = 8 and s = "onended 1000 8 s1" and t' = 1100
      and m = m and env = env and d = "1/2" and e = joins and due = 1200
      and evs = "[joins, Tick 1100, Ended 1150 9, Tick 1199]"]
  note c = grace_delay [where t = 1000 and src = 8 and s = "onended 1000 8 s1" and t' = 1200
      and m = m and env = env and d = "1/2" and e = joins and due = 1200
      and evs = "[joins, Tick 1100, Ended 1150 9, Tick 1199]"]
  from b tm nt ny have keep: "1200 \<in> set (timers
      (run [joins, Tick 1100, Ended 1150 9, Tick 1199] (onended 1000 8 s1)))"
    and one: "timers (step joins (onended 1000 8 s1)) = [1200]"
    by (simp_all add: joins_def chunk_event_def)
  from b tm have early: "tick 1100 (onended 1000 8 s1) = onended 1000 8 s1" by simp
  from c tm sp act have late: "\<not> isSpeaking (tick 1200 (onended 1000 8 s1))" by simp
  from a h have joined: "isSpeaking (tick 1200 (onmessage m env (onended 1000 8 s1)))" by blast
  from nt ny tm keep one early sp act late h joined show ?thesis
    unfolding s1_def joins_def m_def env_def by simp
qed

text \<open>
  C9, as the spec has it, fails: the re-evaluation is not cancelled when a segment joins
  during the delay. Source 8 ends at 1000 ms, so its timer is due at 1200 ms; source 9 joins
  the live set after that and ends at 1060 ms; at 1200 ms the first timer runs, finds the set
  empty and sets \<open>isSpeaking\<close> to false, 140 ms after the end of source 9.
\<close>

theorem grace_delay_counterexample:
  "timers (run [chunk_event ''pcm'' 10 (1/2), Ended 1000 8] opened) = [1200] \<and>
   activeSourcesRef (run [chunk_event ''pcm'' 10 (1/2), Ended 1000 8] opened) = [] \<and>
   activeSourcesRef (run [chunk_event ''pcm'' 10 (1/2), Ended 1000 8,
      chunk_event ''pcm'' (21/2) (1/16)] opened) = [9] \<and>
   isSpeaking (run [chunk_event ''pcm'' 10 (1/2), Ended 1000 8,
      chunk_event ''pcm'' (21/2) (1/16), Ended 1060 9] opened) \<and>
   timers (run [chunk_event ''pcm'' 10 (1/2), Ended 1000 8,
      chunk_event ''pcm'' (21/2) (1/16), Ended 1060 9] opened) = [1200, 1260] \<and>
   \<not> isSpeaking (run [chunk_event ''pcm'' 10 (1/2), Ended 1000 8,
      chunk_event ''pcm'' (21/2) (1/16), Ended 1060 9, Tick 1200] opened) \<and>
   timers (run [chunk_event ''pcm'' 10 (1/2), Ended 1000 8,
      chunk_event ''pcm'' (21/2) (1/16), Ended 1060 9, Tick 1200] opened) = [1260]"
  by (simp add: opened_def chunk_event_def init_def connect_def session_resolved_def
        resolve_def onopen_def onmessage_def play_chunk_def resync_def schedule_def
        log_line_def has_audio_def set_add_def set_delete_def onended_def tick_def
        grace_check_def)

text \<open>
  C10. The failure path is not fully state preserving. When the output context resumes (or
  was running) and the decoding then fails, the cursor has already been set to the larger
  of its old value and the device time: a failed chunk that arrives when the device time is
  ahead of the cursor raises the cursor to the device time. The live set is unchanged, no
  segment is started and no duration is added.
\<close>

theorem decode_failure_raises_cursor:
  assumes "has_audio m" and "\<not> interrupted m" and "decoded env = None"
    and "\<not> (ctx_suspended env \<and> resume_rejects env)"
  shows "nextStartTimeRef (onmessage m env s) = max (nextStartTimeRef s) (currentTime env) \<and>
     activeSourcesRef (onmessage m env s) = activeSourcesRef s \<and>
     started (onmessage m env s) = started s \<and>
     (nextStartTimeRef s < currentTime env \<longrightarrow>
        nextStartTimeRef (onmessage m env s) = currentTime env \<and>
        nextStartTimeRef (onmessage m env s) \<noteq> nextStartTimeRef s)"
  using assms
  by (auto simp add: onmessage_def play_chunk_def resync_def log_line_def Let_def)

theorem decode_failure_raises_cursor_witness:
  "has_audio bad_chunk \<and> \<not> interrupted bad_chunk \<and> decoded (decode_fails_at 5) = None \<and>
   \<not> (ctx_suspended (decode_fails_at 5) \<and> resume_rejects (decode_fails_at 5)) \<and>
   nextStartTimeRef opened = 0 \<and> nextStartTimeRef opened < currentTime (decode_fails_at 5) \<and>
   nextStartTimeRef (onmessage bad_chunk (decode_fails_at 5) opened) = 5 \<and>
   activeSourcesRef (onmessage bad_chunk (decode_fails_at 5) opened) = [] \<and>
   started (onmessage bad_chunk (decode_fails_at 5) opened) = []"
  using decode_failure_raises_cursor [of bad_chunk "decode_fails_at 5" opened]
  by (simp add: bad_chunk_def decode_fails_at_def opened_def init_def connect_def
        session_resolved_def resolve_def onopen_def log_line_def has_audio_def)

subsection \<open>The timeline beyond C1\<close>

text \<open>
  The audio branch of \<open>onmessage\<close> is the re-sync followed by the commit. When several
  handlers are in flight and their parts run in any order, the segments started still do not
  overlap: the commit reads the cursor, starts the source and advances the cursor without
  giving up control.
\<close>

lemma part_chained:
  assumes "part_ok p" and "cursor_ok s"
  shows "\<exists>new. started (part p s) = started s @ new \<and>
     chained (nextStartTimeRef s) new (nextStartTimeRef (part p s)) \<and> cursor_ok (part p s)"
proof (cases p)
  case (Resynced now)
  with assms(1) have now: "is_double now" by simp
  have "started (part p s) = started s @ []"
    and "chained (nextStartTimeRef s) [] (nextStartTimeRef (part p s))"
    using Resynced by (simp_all add: resync_def)
  moreover from cursor_ok_resync [OF assms(2) now] Resynced have "cursor_ok (part p s)"
    by simp
  ultimately show ?thesis by blast
next
  case (Committed d)
  with assms(1) have d: "is_double d" "0 \<le> d" by simp_all
  from schedule_chained [OF assms(2) d] Committed show ?thesis by auto
qed

lemma parts_chained:
  "list_all part_ok ps \<Longrightarrow> cursor_ok s \<Longrightarrow>
     \<exists>new. started (fold part ps s) = started s @ new \<and>
       chained (nextStartTimeRef s) new (nextStartTimeRef (fold part ps s)) \<and>
       cursor_ok (fold part ps s)"
proof (induction ps arbitrary: s)
  case Nil
  then show ?case by simp
next
  case (Cons p ps)
  from Cons.prems have p: "part_ok p" and ps: "list_all part_ok ps" by simp_all
  from part_chained [OF p Cons.prems(2)] obtain n1 where
    n1: "started (part p s) = started s @ n1"
        "chained (nextStartTimeRef s) n1 (nextStartTimeRef (part p s))"
        "cursor_ok (part p s)" by blast
  from Cons.IH [OF ps n1(3)] obtain n2 where
    n2: "started (fold part ps (part p s)) = started (part p s) @ n2"
        "chained (nextStartTimeRef (part p s)) n2 (nextStartTimeRef (fold part ps (part p s)))"
        "cursor_ok (fold part ps (part p s))"
    by blast
  from n1 n2 have "started (fold part (p # ps) s) = started s @ (n1 @ n2)" by simp
  moreover from n1 n2 have
    "chained (nextStartTimeRef s) (n1 @ n2) (nextStartTimeRef (fold part (p # ps) s))"
    by (simp add: chained_append)
  moreover from n2 have "cursor_ok (fold part (p # ps) s)" by simp
  ultimately show ?case by blast
qed

lemma interleaved_parts_never_overlap:
  assumes "list_all part_ok ps" and "cursor_ok s"
  shows "no_overlap (scheduled_since s (fold part ps s))"
proof -
  from parts_chained [OF assms] obtain new where
    "started (fold part ps s) = started s @ new"
    "chained (nextStartTimeRef s) new (nextStartTimeRef (fold part ps s))" by blast
  then show ?thesis
    by (simp add: scheduled_since_def chained_sorted sorted_no_overlap)
qed

lemma onmessage_as_parts:
  "has_audio m \<Longrightarrow> \<not> interrupted m \<Longrightarrow> \<not> (ctx_suspended env \<and> resume_rejects env) \<Longrightarrow>
   decoded env = Some d \<Longrightarrow>
   onmessage m env s = fold part [Resynced (currentTime env), Committed d] s"
  by (auto simp add: onmessage_def play_chunk_def)

text \<open>
  Over all events, with interruptions, teardown and reconnection, the segments whose
  sources are in the live set never overlap.
\<close>

lemma timeline_inv_teardown:
  assumes "\<forall>g\<in>set (started t). seg_id g < nextId t"
  shows "timeline_inv (cleanup t)"
  using assms by (simp add: timeline_inv_def live_segments_def cleanup_def cursor_ok_def)

lemma timeline_inv_started: "timeline_inv s \<Longrightarrow> \<forall>g\<in>set (started s). seg_id g < nextId s"
  by (simp add: timeline_inv_def)

lemma timeline_inv_move:
  assumes "timeline_inv s" and "started t = started s"
    and "activeSourcesRef t = activeSourcesRef s"
    and "nextStartTimeRef s \<le> nextStartTimeRef t" and "is_double (nextStartTimeRef t)"
    and "nextId s \<le> nextId t"
  shows "timeline_inv t"
proof -
  have live: "live_segments t = live_segments s"
    using assms(2,3) by (simp add: live_segments_def)
  from assms(1) have a: "\<forall>g\<in>set (started s). seg_id g < nextId s"
    and b: "\<forall>i\<in>set (activeSourcesRef s). i < nextId s"
    and c: "sorted_wrt (\<lambda>x y. seg_end x \<le> seg_start y) (live_segments s)"
    and d: "\<forall>g\<in>set (live_segments s). seg_end g \<le> nextStartTimeRef s"
    and e: "0 \<le> nextStartTimeRef s"
    by (simp_all add: timeline_inv_def cursor_ok_def)
  from a assms(6) have "\<forall>g\<in>set (started s). seg_id g < nextId t" by fastforce
  moreover from b assms(6) have "\<forall>i\<in>set (activeSourcesRef s). i < nextId t" by fastforce
  moreover from d assms(4) have "\<forall>g\<in>set (live_segments s). seg_end g \<le> nextStartTimeRef t"
    by fastforce
  moreover from e assms(4,5) have "cursor_ok t" by (simp add: cursor_ok_def)
  ultimately show ?thesis
    using c unfolding timeline_inv_def live assms(2,3) by blast
qed

lemma timeline_inv_frame:
  assumes "timeline_inv s" and "started t = started s"
    and "activeSourcesRef t = activeSourcesRef s"
    and "nextStartTimeRef t = nextStartTimeRef s" and "nextId s \<le> nextId t"
  shows "timeline_inv t"
proof -
  from assms(1) have "is_double (nextStartTimeRef s)"
    by (simp add: timeline_inv_def cursor_ok_def)
  with assms(2-5) show ?thesis by (intro timeline_inv_move [OF assms(1)]) simp_all
qed

lemma timeline_inv_schedule:
  assumes "timeline_inv s" and "is_double d" and "0 \<le> d"
  shows "timeline_inv (schedule d s)"
proof -
  let ?g = "\<lparr>seg_id = nextId s, seg_start = nextStartTimeRef s, seg_duration = d\<rparr>"
  from assms(1) have a: "\<forall>g\<in>set (started s). seg_id g < nextId s"
    and b: "\<forall>i\<in>set (activeSourcesRef s). i < nextId s"
    and c: "sorted_wrt (\<lambda>x y. seg_end x \<le> seg_start y) (live_segments s)"
    and e: "\<forall>g\<in>set (live_segments s). seg_end g \<le> nextStartTimeRef s"
    and ok: "cursor_ok s"
    by (simp_all add: timeline_inv_def)
  from schedule_chained [OF ok assms(2,3)]
  have ge: "nextStartTimeRef s \<le> number_add (nextStartTimeRef s) d"
    and ok': "cursor_ok (schedule d s)"
    by (simp_all add: seg_end_def schedule_def)
  from b have fresh: "nextId s \<notin> set (activeSourcesRef s)" by auto
  then have act: "activeSourcesRef (schedule d s) = activeSourcesRef s @ [nextId s]"
    by (simp add: schedule_def set_add_def)
  have st: "started (schedule d s) = started s @ [?g]"
    and nid: "nextId (schedule d s) = nextId s + 1"
    and ns: "nextStartTimeRef (schedule d s) = number_add (nextStartTimeRef s) d"
    by (simp_all add: schedule_def)
  have old: "filter (\<lambda>g. seg_id g \<in> set (activeSourcesRef s @ [nextId s])) (started s)
      = filter (\<lambda>g. seg_id g \<in> set (activeSourcesRef s)) (started s)"
    using a by (intro filter_cong) auto
  have live: "live_segments (schedule d s) = live_segments s @ [?g]"
    unfolding live_segments_def act st using old by simp
  have "\<forall>g\<in>set (started s @ [?g]). seg_id g < nextId s + 1"
    using a by fastforce
  moreover have "\<forall>i\<in>set (activeSourcesRef s @ [nextId s]). i < nextId s + 1"
    using b by fastforce
  moreover have "sorted_wrt (\<lambda>x y. seg_end x \<le> seg_start y) (live_segments s @ [?g])"
    using c e by (simp add: sorted_wrt_append)
  moreover have "\<forall>g\<in>set (live_segments s @ [?g]).
      seg_end g \<le> number_add (nextStartTimeRef s) d"
  proof
    fix g assume "g \<in> set (live_segments s @ [?g])"
    then consider "g \<in> set (live_segments s)" | "g = ?g" by auto
    then show "seg_end g \<le> number_add (nextStartTimeRef s) d"
    proof cases
      case 1
      with e have "seg_end g \<le> nextStartTimeRef s" by blast
      with ge show ?thesis by simp
    next
      case 2
      then show ?thesis by (simp add: seg_end_def)
    qed
  qed
  ultimately show ?thesis
    using ok' unfolding timeline_inv_def live act st nid ns by blast
qed

lemma timeline_inv_onmessage:
  assumes "timeline_inv s" and "nonneg_event (OnMessage m env)"
  shows "timeline_inv (onmessage m env s)"
proof -
  have logged: "timeline_inv (log_line l t)" if "timeline_inv t" for l t
    using that by (rule timeline_inv_frame) (simp_all add: log_line_def)
  have synced: "timeline_inv (resync (currentTime env) s)"
  proof -
    from assms have dbl: "is_double (max (nextStartTimeRef s) (currentTime env))"
      by (intro is_double_max) (simp_all add: timeline_inv_def cursor_ok_def)
    show ?thesis
      by (rule timeline_inv_move [OF assms(1)]) (simp_all add: resync_def dbl)
  qed
  have played: "timeline_inv (play_chunk env s)"
  proof (cases "decoded env")
    case None
    with assms(1) show ?thesis by (simp add: play_chunk_def logged synced)
  next
    case (Some d)
    with assms(2) have "is_double d" "0 \<le> d" by simp_all
    with Some assms(1) show ?thesis
      by (simp add: play_chunk_def logged synced timeline_inv_schedule)
  qed
  have stopped: "timeline_inv (interrupt t)" if "timeline_inv t" for t
    using that
    by (simp add: timeline_inv_def live_segments_def interrupt_def log_line_def cursor_ok_def)
  from assms(1) played stopped show ?thesis by (simp add: onmessage_def Let_def)
qed

lemma sorted_wrt_filter_sub:
  "sorted_wrt R (filter P xs) \<Longrightarrow> (\<And>x. Q x \<Longrightarrow> P x) \<Longrightarrow> sorted_wrt R (filter Q xs)"
proof -
  assume s: "sorted_wrt R (filter P xs)" and imp: "\<And>x. Q x \<Longrightarrow> P x"
  have "filter Q xs = filter Q (filter P xs)"
    using imp by (auto intro: filter_cong)
  with s show ?thesis by (simp only: sorted_wrt_filter)
qed

lemma timeline_inv_onended:
  assumes "timeline_inv s"
  shows "timeline_inv (onended t src s)"
proof -
  from assms have a: "\<forall>g\<in>set (started s). seg_id g < nextId s"
    and b: "\<forall>i\<in>set (activeSourcesRef s). i < nextId s"
    and c: "sorted_wrt (\<lambda>x y. seg_end x \<le> seg_start y) (live_segments s)"
    and e: "\<forall>g\<in>set (live_segments s). seg_end g \<le> nextStartTimeRef s"
    and ok: "cursor_ok s"
    by (simp_all add: timeline_inv_def)
  have sub: "set (live_segments (onended t src s)) \<subseteq> set (live_segments s)"
    by (auto simp add: live_segments_def onended_def set_delete_def)
  have "sorted_wrt (\<lambda>x y. seg_end x \<le> seg_start y) (live_segments (onended t src s))"
  proof -
    have st: "started (onended t src s) = started s" by (simp add: onended_def)
    from c show ?thesis
      unfolding live_segments_def st
      by (rule sorted_wrt_filter_sub) (simp add: onended_def set_delete_def)
  qed
  moreover from sub e
  have "\<forall>g\<in>set (live_segments (onended t src s)). seg_end g \<le> nextStartTimeRef s" by blast
  moreover from a b have "\<forall>g\<in>set (started (onended t src s)). seg_id g < nextId (onended t src s)"
    and "\<forall>i\<in>set (activeSourcesRef (onended t src s)). i < nextId (onended t src s)"
    by (simp_all add: onended_def set_delete_def)
  moreover from ok have "cursor_ok (onended t src s)" by (simp add: cursor_ok_def onended_def)
  ultimately show ?thesis
    unfolding timeline_inv_def by (simp add: onended_def)
qed

lemma timeline_inv_step:
  assumes "timeline_inv s" and "nonneg_event e"
  shows "timeline_inv (step e s)"
proof (cases e)
  case (Connect fault)
  show ?thesis
  proof (cases "isConnected s \<or> isConnecting s")
    case True
    with assms(1) Connect show ?thesis by (simp add: connect_def)
  next
    case False
    have fail: "timeline_inv (connect_failed msg t)"
      if "started t = started s" "nextId s \<le> nextId t" for msg t
      unfolding connect_failed_def
      using that timeline_inv_started [OF assms(1)]
      by (intro timeline_inv_teardown) (fastforce simp add: log_line_def)
    show ?thesis
    proof (cases fault)
      case None
      have "timeline_inv (connect False False None s)"
        using assms(1)
        by (rule timeline_inv_frame) (simp_all add: connect_def Let_def)
      with None Connect False show ?thesis by simp
    next
      case (Some a)
      obtain k msg where a: "a = (k, msg)" by (cases a)
      with False Some Connect show ?thesis
        by (cases k) (simp_all add: connect_def Let_def fail)
    qed
  qed
next
  case (SessionResolved v)
  have "timeline_inv (session_resolved v s)"
    using assms(1)
    by (rule timeline_inv_frame)
      (simp_all add: session_resolved_def resolve_def fold_run_reaction split: option.splits)
  with SessionResolved show ?thesis by simp
next
  case (SessionRejected msg)
  have "timeline_inv (session_rejected msg s)"
    unfolding session_rejected_def
    using timeline_inv_started [OF assms(1)]
    by (intro timeline_inv_teardown) (simp add: log_line_def)
  with SessionRejected show ?thesis by simp
next
  case (OnOpen outcome)
  have fail: "timeline_inv (capture_failed t)"
    if "started t = started s" "nextId s \<le> nextId t" for t
    unfolding capture_failed_def
    using that timeline_inv_started [OF assms(1)]
    by (intro timeline_inv_teardown) (fastforce simp add: log_line_def)
  have "timeline_inv (onopen outcome s)"
  proof (cases outcome)
    case Granted
    show ?thesis
      using assms(1)
      by (rule timeline_inv_frame) (simp_all add: onopen_def Granted log_line_def Let_def)
  next
    case Denied
    then show ?thesis by (simp add: onopen_def Let_def fail log_line_def)
  next
    case GraphFailed
    then show ?thesis by (simp add: onopen_def Let_def fail log_line_def)
  qed
  with OnOpen show ?thesis by simp
next
  case (AudioProcess f)
  have "timeline_inv (onaudioprocess f s)"
    using assms(1)
    by (rule timeline_inv_frame)
      (auto simp add: onaudioprocess_def promise_then_def split: option.splits reaction.splits)
  with AudioProcess show ?thesis by simp
next
  case (OnMessage m env)
  with assms show ?thesis by (simp add: timeline_inv_onmessage)
next
  case (Ended t src)
  with assms(1) show ?thesis by (simp add: timeline_inv_onended)
next
  case (Tick t)
  have "timeline_inv (tick t s)"
    using assms(1) by (rule timeline_inv_frame) (simp_all add: tick_closed_form)
  with Tick show ?thesis by simp
next
  case OnClose
  have "timeline_inv (onclose s)"
    unfolding onclose_def
    using timeline_inv_started [OF assms(1)]
    by (intro timeline_inv_teardown) (simp add: log_line_def)
  with OnClose show ?thesis by simp
next
  case OnError
  have "timeline_inv (onerror s)"
    unfolding onerror_def
    using timeline_inv_started [OF assms(1)]
    by (intro timeline_inv_teardown) (simp add: log_line_def)
  with OnError show ?thesis by simp
next
  case Disconnect
  have "timeline_inv (disconnect s)"
    unfolding disconnect_def
    using timeline_inv_started [OF assms(1)]
    by (intro timeline_inv_teardown)
      (auto simp add: promise_then_def split: option.splits reaction.splits)
  with Disconnect show ?thesis by simp
next
  case Unmount
  with timeline_inv_started [OF assms(1)] show ?thesis
    by (simp add: timeline_inv_teardown)
qed

lemma timeline_inv_run:
  "timeline_inv s \<Longrightarrow> list_all nonneg_event evs \<Longrightarrow> timeline_inv (run evs s)"
  by (induction evs arbitrary: s) (simp_all add: timeline_inv_step)

lemma live_segments_never_overlap:
  assumes "list_all nonneg_event evs"
  shows "no_overlap (live_segments (run evs init))"
proof -
  have "timeline_inv init"
    by (simp add: timeline_inv_def live_segments_def init_def cursor_ok_def)
  with assms have "timeline_inv (run evs init)" by (intro timeline_inv_run)
  then show ?thesis by (simp add: timeline_inv_def sorted_no_overlap)
qed

subsection \<open>Capture gating and calls through stale callbacks\<close>

text \<open>
  A second \<open>connect\<close> through a stale callback (C6) can leave the hook connected and
  connecting at once. The gate of C4 survives it in this form: in every state reached by
  events and by such calls, a step that sends a frame starts from a state in which
  \<open>isConnected\<close> holds, that is, after an \<open>onopen\<close> and with no teardown since.
\<close>

lemma gate_inv_pending: "gate_inv s \<Longrightarrow> \<forall>q\<in>set (pending s). fst q < nextId s"
  by (simp add: gate_inv_def)

lemma gate_inv_teardown:
  assumes "gate_inv s" and "pending t = pending s" and "nextId s \<le> nextId t"
  shows "gate_inv (cleanup t)"
proof -
  have "fst q < nextId t" if "q \<in> set (pending t)" for q
  proof -
    from that assms(2) gate_inv_pending [OF assms(1)] have "fst q < nextId s" by simp
    with assms(3) show ?thesis by simp
  qed
  then show ?thesis by (simp add: gate_inv_def cleanup_def)
qed

lemma gate_inv_connect:
  assumes "gate_inv s"
  shows "gate_inv (connect seenConnected seenConnecting fault s)"
proof (cases "seenConnected \<or> seenConnecting")
  case True
  with assms show ?thesis by (simp add: connect_def)
next
  case False
  show ?thesis
  proof (cases fault)
    case None
    let ?t = "connect seenConnected seenConnecting None s"
    from assms have a: "scriptProcessorRef s \<noteq> None \<longrightarrow> isConnected s"
      and b: "\<forall>q\<in>set (pending s). fst q < nextId s"
      by (simp_all add: gate_inv_def)
    have f: "scriptProcessorRef ?t = scriptProcessorRef s" "isConnected ?t = isConnected s"
      "pending ?t = pending s" "nextId ?t = nextId s + 5"
      "sessionResolveRef ?t = Some (nextId s + 4)" "sessionPromiseRef ?t = Some (nextId s + 4)"
      using False by (simp_all add: connect_def Let_def)
    have "\<forall>q\<in>set (pending s). fst q < nextId s + 5" using b by fastforce
    moreover have "\<forall>q\<in>set (pending s). fst q \<noteq> nextId s + 4" using b by fastforce
    ultimately have "gate_inv ?t"
      unfolding gate_inv_def f using a by auto
    with None show ?thesis by simp
  next
    case (Some a)
    obtain k msg where a: "a = (k, msg)" by (cases a)
    have "gate_inv (cleanup t)" if "pending t = pending s" "nextId s \<le> nextId t" for t
      using assms that by (rule gate_inv_teardown)
    with False Some a show ?thesis
      by (cases k) (simp_all add: connect_def connect_failed_def log_line_def Let_def)
  qed
qed

lemma gate_inv_step:
  assumes "gate_inv s"
  shows "gate_inv (step e s)"
proof (cases e)
  case (Connect fault)
  with gate_inv_connect [OF assms] show ?thesis by simp
next
  case (SessionResolved v)
  with assms show ?thesis
    by (auto simp add: gate_inv_def session_resolved_def resolve_def fold_run_reaction
          split: option.splits)
next
  case (SessionRejected msg)
  from assms have "gate_inv (session_rejected msg s)"
    unfolding session_rejected_def
    by (rule gate_inv_teardown) (simp_all add: log_line_def)
  with SessionRejected show ?thesis by simp
next
  case (OnOpen outcome)
  have fail: "gate_inv (cleanup t)" if "pending t = pending s" "nextId s \<le> nextId t" for t
    using assms that by (rule gate_inv_teardown)
  have "gate_inv (onopen outcome s)"
  proof (cases outcome)
    case Granted
    with assms show ?thesis
      by (fastforce simp add: onopen_def gate_inv_def log_line_def Let_def)
  next
    case Denied
    with fail show ?thesis
      by (simp add: onopen_def capture_failed_def log_line_def Let_def)
  next
    case GraphFailed
    with fail show ?thesis
      by (simp add: onopen_def capture_failed_def log_line_def Let_def)
  qed
  with OnOpen show ?thesis by simp
next
  case (AudioProcess f)
  with assms show ?thesis
    by (auto simp add: gate_inv_def onaudioprocess_def promise_then_def split: option.splits)
next
  case (OnMessage m env)
  with assms show ?thesis
    by (auto simp add: gate_inv_def onmessage_def play_chunk_def resync_def schedule_def
          interrupt_def log_line_def Let_def split: option.splits)
next
  case (Ended t src)
  with assms show ?thesis by (simp add: gate_inv_def onended_def)
next
  case (Tick t)
  with assms show ?thesis by (simp add: gate_inv_def tick_closed_form)
next
  case OnClose
  from assms have "gate_inv (onclose s)"
    unfolding onclose_def by (rule gate_inv_teardown) (simp_all add: log_line_def)
  with OnClose show ?thesis by simp
next
  case OnError
  from assms have "gate_inv (onerror s)"
    unfolding onerror_def by (rule gate_inv_teardown) (simp_all add: log_line_def)
  with OnError show ?thesis by simp
next
  case Disconnect
  have "gate_inv (disconnect s)"
  proof (cases "sessionPromiseRef s")
    case None
    with gate_inv_teardown [OF assms, of s] show ?thesis by (simp add: disconnect_def)
  next
    case (Some p)
    with assms have p: "p < nextId s" by (simp add: gate_inv_def)
    show ?thesis
    proof (cases "map_of (resolved s) p")
      case None
      from assms p have "\<forall>q\<in>set (pending s @ [(p, CloseSession)]). fst q < nextId s"
        by (auto simp add: gate_inv_def)
      then have "gate_inv (cleanup (s\<lparr>pending := pending s @ [(p, CloseSession)]\<rparr>))"
        by (simp add: gate_inv_def cleanup_def)
      with None \<open>sessionPromiseRef s = Some p\<close> show ?thesis
        by (simp add: disconnect_def promise_then_def)
    next
      case (Some v)
      have "gate_inv (cleanup (s\<lparr>closedSessions := closedSessions s @ [v]\<rparr>))"
        using assms by (rule gate_inv_teardown) simp_all
      with Some \<open>sessionPromiseRef s = Some p\<close> show ?thesis
        by (simp add: disconnect_def promise_then_def)
    qed
  qed
  with Disconnect show ?thesis by simp
next
  case Unmount
  from assms have "gate_inv (cleanup s)" by (rule gate_inv_teardown) simp_all
  with Unmount show ?thesis by simp
qed

lemma reachable_gate_inv: "reachable s \<Longrightarrow> gate_inv s"
proof (induction rule: reachable.induct)
  case start
  show ?case by (simp add: gate_inv_def init_def)
next
  case (event s e)
  then show ?case by (simp add: gate_inv_step)
next
  case (stale s seenConnected seenConnecting fault)
  then show ?case by (simp add: gate_inv_connect)
qed

lemma connect_sends_nothing:
  "sentFrames (connect seenConnected seenConnecting fault s) = sentFrames s"
  by (cases fault)
    (auto simp add: connect_def connect_failed_def cleanup_def log_line_def Let_def
       split: connect_fault.splits)

lemma gate_holds_under_stale_calls:
  assumes "reachable s" and "sentFrames (step e s) \<noteq> sentFrames s"
  shows "isConnected s"
proof -
  from assms(1) have inv: "gate_inv s" by (rule reachable_gate_inv)
  show ?thesis
  proof (cases e)
    case (AudioProcess f)
    with inv assms(2) show ?thesis
      by (auto simp add: gate_inv_def onaudioprocess_def promise_then_def
            split: option.splits if_splits)
  next
    case (SessionResolved v)
    with assms(2) obtain p where p: "sessionResolveRef s = Some p"
      and "map_of (resolved s) p = None"
      and "\<exists>q\<in>set (pending s). fst q = p \<and> is_frame (snd q)"
      by (fastforce simp add: session_resolved_def resolve_def fold_run_reaction
            frames_of_reactions split: option.splits)
    then obtain q where "q \<in> set (pending s)" "fst q = p" "is_frame (snd q)" by auto
    with inv p show ?thesis by (auto simp add: gate_inv_def)
  next
    case (Connect fault)
    with assms(2) show ?thesis by (simp add: connect_sends_nothing)
  next
    case (OnOpen outcome)
    with assms(2) show ?thesis
      by (cases outcome)
        (auto simp add: onopen_def capture_failed_def cleanup_def log_line_def Let_def)
  next
    case (OnMessage m env)
    with assms(2) show ?thesis
      by (auto simp add: onmessage_def play_chunk_def resync_def schedule_def interrupt_def
            log_line_def Let_def split: if_splits option.splits)
  next
    case Disconnect
    with assms(2) show ?thesis
      by (auto simp add: disconnect_def promise_then_def cleanup_def split: option.splits)
  qed (use assms(2) in \<open>auto simp add: session_rejected_def onended_def tick_closed_form
         onclose_def onerror_def cleanup_def log_line_def split: if_splits\<close>)
qed

end
